theory Spec2Isabelle
  imports Main
begin

section \<open>JavaScript numbers and strings used by the modules\<close>

text \<open>
  Timestamps (\<^verbatim>\<open>Date.now()\<close>), windows and counters are JavaScript numbers holding
  integers; they are modelled as \<open>int\<close>. Every function that reads the clock takes the
  reading as an argument, one argument per call of \<^verbatim>\<open>Date.now()\<close> in the source.
\<close>

text \<open>
  \<^verbatim>\<open>Math.ceil(a / b)\<close> for integers \<open>a\<close> and a positive integer \<open>b\<close>. For
  \<open>\<bar>a\<bar> < 2^53\<close> the floating-point quotient cannot cross an integer, so the result
  is the exact ceiling of the rational quotient.
\<close>

definition ceil_div :: "int \<Rightarrow> int \<Rightarrow> int" where
  "ceil_div a b = - ((- a) div b)"

text \<open>Decimal rendering of a number in a template literal or by \<^verbatim>\<open>Array.join\<close>.\<close>

fun digit_char :: "nat \<Rightarrow> char" where
  "digit_char n = (''0123456789abcdefghijklmnopqrstuvwxyz'' ! n)"

function to_radix :: "nat \<Rightarrow> nat \<Rightarrow> string" where
  "to_radix b n =
     (if b < 2 then []
      else if n < b then [digit_char n]
      else to_radix b (n div b) @ [digit_char (n mod b)])"
  by pat_completeness auto
termination
  by (relation "measure (\<lambda>(b, n). n)") auto

declare to_radix.simps [simp del]

definition show_int :: "int \<Rightarrow> string" where
  "show_int i = (if i < 0 then CHR ''-'' # to_radix 10 (nat (- i)) else to_radix 10 (nat i))"

section \<open>Security manager: RateLimiter\<close>

record 'k rate_limiter =
  attempts :: "'k \<rightharpoonup> int list"
  maxAttempts :: int
  windowMs :: int
  blockedUntil :: "'k \<rightharpoonup> int"

record limit_result =
  allowed :: bool
  retryAfter :: "int option"
  attemptsLeft :: "int option"
  message :: "string option"

text \<open>The constructor: \<^verbatim>\<open>new RateLimiter(maxAttempts = 5, windowMs = 300000)\<close>.\<close>

definition new_RateLimiter :: "int \<Rightarrow> int \<Rightarrow> 'k rate_limiter" where
  "new_RateLimiter m w =
     \<lparr>attempts = Map.empty, maxAttempts = m, windowMs = w, blockedUntil = Map.empty\<rparr>"

text \<open>
  The guard \<^verbatim>\<open>blockedUntil && now < blockedUntil\<close>: a missing entry is
  \<^verbatim>\<open>undefined\<close> and a stored deadline of 0 is falsy as well.
\<close>

definition is_blocked :: "'k rate_limiter \<Rightarrow> int \<Rightarrow> 'k \<Rightarrow> bool" where
  "is_blocked rl now ident =
     (case blockedUntil rl ident of None \<Rightarrow> False | Some b \<Rightarrow> b \<noteq> 0 \<and> now < b)"

text \<open>\<^verbatim>\<open>(this.attempts.get(identifier) || []).filter(time => now - time < this.windowMs)\<close>\<close>

definition recentAttempts :: "'k rate_limiter \<Rightarrow> int \<Rightarrow> 'k \<Rightarrow> int list" where
  "recentAttempts rl now ident =
     filter (\<lambda>time. now - time < windowMs rl)
       (case attempts rl ident of None \<Rightarrow> [] | Some xs \<Rightarrow> xs)"

definition checkLimit :: "'k rate_limiter \<Rightarrow> int \<Rightarrow> 'k \<Rightarrow> limit_result \<times> 'k rate_limiter" where
  "checkLimit rl now ident =
     (if is_blocked rl now ident then
        (let b = the (blockedUntil rl ident) in
         (\<lparr>allowed = False,
           retryAfter = Some (ceil_div (b - now) 1000),
           attemptsLeft = None,
           message = Some (''Muitas tentativas. Tente novamente em ''
                           @ show_int (ceil_div (b - now) 1000) @ ''s'')\<rparr>, rl))
      else
        (let recent = recentAttempts rl now ident in
         if maxAttempts rl \<le> int (length recent) then
           (\<lparr>allowed = False,
             retryAfter = Some (ceil_div (windowMs rl) 1000),
             attemptsLeft = None,
             message = Some (''Limite de tentativas excedido. Aguarde ''
                             @ show_int (ceil_div (windowMs rl) 1000) @ ''s'')\<rparr>,
            rl\<lparr>blockedUntil := (blockedUntil rl)(ident \<mapsto> now + windowMs rl)\<rparr>)
         else
           (\<lparr>allowed = True,
             retryAfter = None,
             attemptsLeft = Some (maxAttempts rl - int (length (recent @ [now]))),
             message = None\<rparr>,
            rl\<lparr>attempts := (attempts rl)(ident \<mapsto> recent @ [now])\<rparr>)))"

definition reset :: "'k rate_limiter \<Rightarrow> 'k \<Rightarrow> 'k rate_limiter" where
  "reset rl ident =
     rl\<lparr>attempts := (attempts rl)(ident := None),
        blockedUntil := (blockedUntil rl)(ident := None)\<rparr>"

text \<open>
  The branch of \<open>checkLimit\<close> that sets a block: the identifier is not inside a block
  and the pruned attempt count has reached \<open>maxAttempts\<close>.
\<close>

definition sets_block :: "'k rate_limiter \<Rightarrow> int \<Rightarrow> 'k \<Rightarrow> bool" where
  "sets_block rl now ident \<longleftrightarrow>
     \<not> is_blocked rl now ident \<and> maxAttempts rl \<le> int (length (recentAttempts rl now ident))"

text \<open>A sequence of \<open>checkLimit\<close> calls, each with its clock reading and identifier.\<close>

fun checkLimit_calls ::
  "'k rate_limiter \<Rightarrow> (int \<times> 'k) list \<Rightarrow> limit_result list \<times> 'k rate_limiter" where
  "checkLimit_calls rl [] = ([], rl)"
| "checkLimit_calls rl ((now, ident) # cs) =
     (let (r, rl') = checkLimit rl now ident;
          (rs, rl'') = checkLimit_calls rl' cs
      in (r # rs, rl''))"

text \<open>A limiter with the default limits holding a given attempt history for one identifier.\<close>

definition demo_limiter :: "int list \<Rightarrow> string rate_limiter" where
  "demo_limiter xs =
     \<lparr>attempts = [''vault-unlock'' \<mapsto> xs], maxAttempts = 5, windowMs = 300000,
      blockedUntil = Map.empty\<rparr>"

section \<open>Key cache\<close>

text \<open>
  A JavaScript string is a sequence of UTF-16 code units; \<^verbatim>\<open>str.charCodeAt(i)\<close> reads
  the \<open>i\<close>-th unit. ASCII text is written with \<open>js_string\<close>.
\<close>

type_synonym jsstring = "nat list"

definition js_string :: "string \<Rightarrow> jsstring" where
  "js_string s = map of_char s"

text \<open>
  \<^verbatim>\<open>ToInt32\<close>, the conversion applied by the bitwise operators \<^verbatim>\<open><<\<close> and
  \<^verbatim>\<open>&\<close>: the value modulo \<open>2^32\<close>, read as two's complement.
\<close>

definition to_int32 :: "int \<Rightarrow> int" where
  "to_int32 x = (x + 2 ^ 31) mod 2 ^ 32 - 2 ^ 31"

text \<open>
  The loop of \<^verbatim>\<open>simpleHash\<close>, one code unit per step:
  \<^verbatim>\<open>hash = ((hash << 5) - hash) + char; hash = hash & hash;\<close>
\<close>

fun hash_loop :: "int \<Rightarrow> jsstring \<Rightarrow> int" where
  "hash_loop hash [] = hash"
| "hash_loop hash (c # cs) =
     hash_loop (to_int32 ((to_int32 (to_int32 hash * 32) - hash) + int c)) cs"

text \<open>\<^verbatim>\<open>Math.abs(hash).toString(36)\<close>\<close>

definition simpleHash :: "jsstring \<Rightarrow> string" where
  "simpleHash str = to_radix 36 (nat \<bar>hash_loop 0 str\<bar>)"

text \<open>The salt argument is a \<^verbatim>\<open>Uint8Array\<close> or a string.\<close>

datatype salt_arg = SaltBytes "nat list" | SaltString jsstring

text \<open>\<^verbatim>\<open>array.join(',')\<close> on numbers.\<close>

fun join_comma :: "nat list \<Rightarrow> string" where
  "join_comma [] = []"
| "join_comma [b] = show_int (int b)"
| "join_comma (b # bs) = show_int (int b) @ '','' @ join_comma bs"

definition saltStr :: "salt_arg \<Rightarrow> jsstring" where
  "saltStr salt = (case salt of SaltBytes bs \<Rightarrow> js_string (join_comma bs) | SaltString s \<Rightarrow> s)"

definition generateCacheKey :: "jsstring \<Rightarrow> salt_arg \<Rightarrow> string" where
  "generateCacheKey password salt = simpleHash password @ ''_'' @ simpleHash (saltStr salt)"

record 'v cache_entry =
  cvalue :: 'v
  expiresAt :: int
  createdAt :: int
  hits :: int

record 'v key_cache =
  cache :: "string \<rightharpoonup> 'v cache_entry"
  defaultTTL :: int

definition new_KeyCache :: "int \<Rightarrow> 'v key_cache" where
  "new_KeyCache ttl = \<lparr>cache = Map.empty, defaultTTL = ttl\<rparr>"

text \<open>
  \<^verbatim>\<open>set(cacheKey, value, ttl = this.defaultTTL)\<close>; \<open>None\<close> is the omitted argument.
  The clock is read twice, for \<open>expiresAt\<close> and for \<open>createdAt\<close>.
\<close>

definition set_cache ::
  "'v key_cache \<Rightarrow> int \<Rightarrow> int \<Rightarrow> string \<Rightarrow> 'v \<Rightarrow> int option \<Rightarrow> 'v key_cache" where
  "set_cache kc now now2 cacheKey v ttl =
     (let expires = now + (case ttl of None \<Rightarrow> defaultTTL kc | Some t \<Rightarrow> t) in
      kc\<lparr>cache := (cache kc)(cacheKey \<mapsto>
            \<lparr>cvalue = v, expiresAt = expires, createdAt = now2, hits = 0\<rparr>)\<rparr>)"

text \<open>\<^verbatim>\<open>get(cacheKey)\<close>: \<open>None\<close> is the returned \<^verbatim>\<open>null\<close>.\<close>

definition get_cache :: "'v key_cache \<Rightarrow> int \<Rightarrow> string \<Rightarrow> 'v option \<times> 'v key_cache" where
  "get_cache kc now cacheKey =
     (case cache kc cacheKey of
        None \<Rightarrow> (None, kc)
      | Some item \<Rightarrow>
          if now > expiresAt item then (None, kc\<lparr>cache := (cache kc)(cacheKey := None)\<rparr>)
          else (Some (cvalue item),
                kc\<lparr>cache := (cache kc)(cacheKey \<mapsto> item\<lparr>hits := hits item + 1\<rparr>)\<rparr>))"

text \<open>\<^verbatim>\<open>extend(cacheKey, additionalTime)\<close>, the only operation that moves an expiry.\<close>

definition extend :: "'v key_cache \<Rightarrow> string \<Rightarrow> int \<Rightarrow> bool \<times> 'v key_cache" where
  "extend kc cacheKey additionalTime =
     (case cache kc cacheKey of
        None \<Rightarrow> (False, kc)
      | Some item \<Rightarrow>
          (True, kc\<lparr>cache := (cache kc)(cacheKey \<mapsto>
                    item\<lparr>expiresAt := expiresAt item + additionalTime\<rparr>)\<rparr>))"

text \<open>\<^verbatim>\<open>cleanup()\<close>: the periodic sweep (the count it returns is left out).\<close>

definition cleanup :: "'v key_cache \<Rightarrow> int \<Rightarrow> 'v key_cache" where
  "cleanup kc now =
     kc\<lparr>cache := (\<lambda>k. case cache kc k of
                        None \<Rightarrow> None
                      | Some item \<Rightarrow> if now > expiresAt item then None else Some item)\<rparr>"

text \<open>A sequence of \<open>get\<close> calls, each with its clock reading and cache key.\<close>

fun get_calls :: "'v key_cache \<Rightarrow> (int \<times> string) list \<Rightarrow> 'v option list \<times> 'v key_cache" where
  "get_calls kc [] = ([], kc)"
| "get_calls kc ((now, k) # cs) =
     (let (r, kc') = get_cache kc now k;
          (rs, kc'') = get_calls kc' cs
      in (r # rs, kc''))"

text \<open>
  \<^verbatim>\<open>CachedCrypto.deriveKeyFromPassword\<close>: the cached derivation. The derivation itself
  (\<^verbatim>\<open>e2eeCrypto.deriveKeyFromPassword\<close>, PBKDF2 of the host) is the parameter
  \<open>derive\<close>. Keys are objects, so the test \<^verbatim>\<open>if (cached)\<close> is a test for presence.
\<close>

definition cached_deriveKeyFromPassword ::
  "(jsstring \<Rightarrow> salt_arg \<Rightarrow> 'v) \<Rightarrow> 'v key_cache \<Rightarrow> int \<Rightarrow> int \<Rightarrow> int \<Rightarrow>
   jsstring \<Rightarrow> salt_arg \<Rightarrow> 'v \<times> 'v key_cache" where
  "cached_deriveKeyFromPassword derive kc now now2 now3 password salt =
     (let cacheKey = generateCacheKey password salt;
          (cached, kc1) = get_cache kc now cacheKey
      in case cached of
           Some k \<Rightarrow> (k, kc1)
         | None \<Rightarrow>
             (let key = derive password salt
              in (key, set_cache kc1 now2 now3 cacheKey key None)))"

section \<open>Zero-knowledge module: challenges and password proofs\<close>

text \<open>
  The JavaScript values a proof field can hold, as far as truthiness tells them apart.
  \<open>JObject\<close> stands for any object (arrays and typed arrays included).
\<close>

datatype jsval = JUndefined | JNull | JBool bool | JNum int | JStr string | JObject

fun truthy :: "jsval \<Rightarrow> bool" where
  "truthy JUndefined = False"
| "truthy JNull = False"
| "truthy (JBool b) = b"
| "truthy (JNum n) = (n \<noteq> 0)"
| "truthy (JStr s) = (s \<noteq> [])"
| "truthy JObject = True"

text \<open>The operator \<^verbatim>\<open>a && b\<close>: the left operand when it is falsy, else the right one.\<close>

definition js_and :: "jsval \<Rightarrow> jsval \<Rightarrow> jsval" where
  "js_and a b = (if truthy a then b else a)"

record password_proof =
  commitment :: jsval
  response :: jsval
  proof_salt :: jsval

record challenge_data =
  challenge :: "nat list"
  timestamp :: int
  verified :: bool

record verified_proof =
  proof_verified :: bool
  proof_timestamp :: int

record zero_knowledge =
  challenges :: "string \<rightharpoonup> challenge_data"
  proofs :: "string \<rightharpoonup> verified_proof"

definition new_ZeroKnowledge :: zero_knowledge where
  "new_ZeroKnowledge = \<lparr>challenges = Map.empty, proofs = Map.empty\<rparr>"

text \<open>\<^verbatim>\<open>b.toString(16).padStart(2, '0')\<close> and \<^verbatim>\<open>arrayToHex\<close>.\<close>

definition hex_byte :: "nat \<Rightarrow> string" where
  "hex_byte b = (let h = to_radix 16 b in replicate (2 - length h) CHR ''0'' @ h)"

definition arrayToHex :: "nat list \<Rightarrow> string" where
  "arrayToHex array = concat (map hex_byte array)"

text \<open>
  \<^verbatim>\<open>generateChallenge()\<close>; \<open>rnd\<close> is the 32 bytes drawn by
  \<^verbatim>\<open>crypto.getRandomValues\<close>. Returns \<^verbatim>\<open>{challengeId, challenge}\<close>.
\<close>

definition generateChallenge ::
  "zero_knowledge \<Rightarrow> nat list \<Rightarrow> int \<Rightarrow> (string \<times> string) \<times> zero_knowledge" where
  "generateChallenge zk rnd now =
     (let challengeId = arrayToHex rnd in
      ((challengeId, arrayToHex rnd),
       zk\<lparr>challenges := (challenges zk)(challengeId \<mapsto>
             \<lparr>challenge = rnd, timestamp = now, verified = False\<rparr>)\<rparr>))"

text \<open>
  What the \<^verbatim>\<open>try\<close> block of \<^verbatim>\<open>verifyPasswordProof\<close> can throw: the two errors it
  raises itself, and the \<^verbatim>\<open>TypeError\<close> of reading a property of \<^verbatim>\<open>null\<close> or
  \<^verbatim>\<open>undefined\<close>.
\<close>

datatype zk_error = ChallengeNotFound | ChallengeExpired | TypeError

text \<open>
  The \<^verbatim>\<open>try\<close> block. A proof argument that is \<^verbatim>\<open>null\<close> or \<^verbatim>\<open>undefined\<close> is
  \<open>None\<close>. The state is returned in every case, since the expired challenge is deleted
  before the error is thrown. The clock is read for the age and again for the record of
  the verified proof. The value returned is the value of the \<^verbatim>\<open>&&\<close> chain.
\<close>

definition verify_body ::
  "zero_knowledge \<Rightarrow> int \<Rightarrow> int \<Rightarrow> password_proof option \<Rightarrow> string \<Rightarrow> 'h \<Rightarrow>
   (zk_error + jsval) \<times> zero_knowledge" where
  "verify_body zk now now2 prf challengeId storedPasswordHash =
     (case challenges zk challengeId of
        None \<Rightarrow> (Inl ChallengeNotFound, zk)
      | Some challengeData \<Rightarrow>
          (let age = now - timestamp challengeData in
           if age > 300000 then
             (Inl ChallengeExpired, zk\<lparr>challenges := (challenges zk)(challengeId := None)\<rparr>)
           else
             (case prf of
                None \<Rightarrow> (Inl TypeError, zk)
              | Some p \<Rightarrow>
                  (let isValid = js_and (js_and (commitment p) (response p)) (proof_salt p) in
                   if truthy isValid then
                     (Inr isValid,
                      zk\<lparr>challenges := (challenges zk)(challengeId \<mapsto>
                            challengeData\<lparr>verified := True\<rparr>),
                         proofs := (proofs zk)(challengeId \<mapsto>
                            \<lparr>proof_verified = True, proof_timestamp = now2\<rparr>)\<rparr>)
                   else (Inr isValid, zk)))))"

text \<open>\<^verbatim>\<open>verifyPasswordProof\<close>: the \<^verbatim>\<open>catch\<close> clause turns every error into \<^verbatim>\<open>false\<close>.\<close>

definition verifyPasswordProof ::
  "zero_knowledge \<Rightarrow> int \<Rightarrow> int \<Rightarrow> password_proof option \<Rightarrow> string \<Rightarrow> 'h \<Rightarrow>
   jsval \<times> zero_knowledge" where
  "verifyPasswordProof zk now now2 prf challengeId storedPasswordHash =
     (case verify_body zk now now2 prf challengeId storedPasswordHash of
        (Inl error, zk') \<Rightarrow> (JBool False, zk')
      | (Inr v, zk') \<Rightarrow> (v, zk'))"

text \<open>\<^verbatim>\<open>clearExpiredChallenges()\<close>, run every minute.\<close>

definition clearExpiredChallenges :: "zero_knowledge \<Rightarrow> int \<Rightarrow> zero_knowledge" where
  "clearExpiredChallenges zk now =
     zk\<lparr>challenges := (\<lambda>cid. case challenges zk cid of
                              None \<Rightarrow> None
                            | Some d \<Rightarrow> if now - timestamp d > 300000 then None else Some d)\<rparr>"

text \<open>
  A proof is structurally complete when it is an object whose commitment, response and
  salt are all truthy.
\<close>

definition structurally_complete :: "password_proof option \<Rightarrow> bool" where
  "structurally_complete prf \<longleftrightarrow>
     (case prf of
        None \<Rightarrow> False
      | Some p \<Rightarrow> truthy (commitment p) \<and> truthy (response p) \<and> truthy (proof_salt p))"

text \<open>The 32 bytes of an example challenge, and a complete proof as \<^verbatim>\<open>createPasswordProof\<close> shapes it.\<close>

definition demo_nonce :: "nat list" where
  "demo_nonce = replicate 32 171"

definition demo_proof :: password_proof where
  "demo_proof = \<lparr>commitment = JStr ''c0ffee'', response = JStr ''4e5f'', proof_salt = JStr ''5a17''\<rparr>"

section \<open>Crypto worker manager\<close>
























section \<open>End-to-end encryption: encryptMessage and decryptMessage\<close>

text \<open>
  Bytes of a \<^verbatim>\<open>Uint8Array\<close> are numbers below 256. The platform functions the two
  methods call are modelled after their standards: \<^verbatim>\<open>TextEncoder\<close> and
  \<^verbatim>\<open>TextDecoder\<close> (WHATWG Encoding), \<^verbatim>\<open>btoa\<close> and \<^verbatim>\<open>atob\<close> (HTML). The
  AES-GCM primitive of \<^verbatim>\<open>crypto.subtle\<close> is a parameter, and so is the number of
  arguments the engine accepts in one call, which bounds the spread
  \<^verbatim>\<open>String.fromCharCode(...array)\<close>.
\<close>

definition is_byte :: "nat \<Rightarrow> bool" where
  "is_byte b \<longleftrightarrow> b < 256"

definition is_code_unit :: "nat \<Rightarrow> bool" where
  "is_code_unit c \<longleftrightarrow> c < 65536"

definition high_surrogate :: "nat \<Rightarrow> bool" where
  "high_surrogate c \<longleftrightarrow> 0xD800 \<le> c \<and> c \<le> 0xDBFF"

definition low_surrogate :: "nat \<Rightarrow> bool" where
  "low_surrogate c \<longleftrightarrow> 0xDC00 \<le> c \<and> c \<le> 0xDFFF"

text \<open>
  Conversion of a string to scalar values, as done for the argument of
  \<^verbatim>\<open>TextEncoder.encode\<close>: a surrogate pair is one code point, an unpaired surrogate
  becomes U+FFFD.
\<close>

fun to_scalars :: "jsstring \<Rightarrow> nat list" where
  "to_scalars [] = []"
| "to_scalars [c] = [if high_surrogate c \<or> low_surrogate c then 0xFFFD else c]"
| "to_scalars (c # d # rest) =
     (if high_surrogate c \<and> low_surrogate d
      then (0x10000 + (c - 0xD800) * 1024 + (d - 0xDC00)) # to_scalars rest
      else (if high_surrogate c \<or> low_surrogate c then 0xFFFD else c) # to_scalars (d # rest))"

text \<open>The UTF-8 encoding of one scalar value.\<close>

definition utf8_bytes :: "nat \<Rightarrow> nat list" where
  "utf8_bytes cp =
     (if cp < 0x80 then [cp]
      else if cp < 0x800 then [0xC0 + cp div 64, 0x80 + cp mod 64]
      else if cp < 0x10000 then
        [0xE0 + cp div 4096, 0x80 + (cp div 64) mod 64, 0x80 + cp mod 64]
      else
        [0xF0 + cp div 262144, 0x80 + (cp div 4096) mod 64, 0x80 + (cp div 64) mod 64,
         0x80 + cp mod 64])"

text \<open>\<^verbatim>\<open>new TextEncoder().encode(message)\<close>\<close>

definition text_encode :: "jsstring \<Rightarrow> nat list" where
  "text_encode str = concat (map utf8_bytes (to_scalars str))"

text \<open>
  The UTF-8 decoder of the Encoding standard, in replacement mode. The state is the code
  point under construction, the bytes seen and needed, and the bounds for the next
  continuation byte. A byte outside the bounds ends the sequence with U+FFFD and is
  read again as the start of a new one.
\<close>

function utf8_decode_loop ::
  "nat \<Rightarrow> nat \<Rightarrow> nat \<Rightarrow> nat \<Rightarrow> nat \<Rightarrow> nat list \<Rightarrow> nat list" where
  "utf8_decode_loop cp seen needed lower upper [] = (if needed \<noteq> 0 then [0xFFFD] else [])"
| "utf8_decode_loop cp seen needed lower upper (b # bs) =
     (if needed = 0 then
        (if b \<le> 0x7F then b # utf8_decode_loop 0 0 0 0x80 0xBF bs
         else if 0xC2 \<le> b \<and> b \<le> 0xDF then utf8_decode_loop (b mod 32) 0 1 0x80 0xBF bs
         else if 0xE0 \<le> b \<and> b \<le> 0xEF then
           utf8_decode_loop (b mod 16) 0 2
             (if b = 0xE0 then 0xA0 else 0x80) (if b = 0xED then 0x9F else 0xBF) bs
         else if 0xF0 \<le> b \<and> b \<le> 0xF4 then
           utf8_decode_loop (b mod 8) 0 3
             (if b = 0xF0 then 0x90 else 0x80) (if b = 0xF4 then 0x8F else 0xBF) bs
         else 0xFFFD # utf8_decode_loop 0 0 0 0x80 0xBF bs)
      else if \<not> (lower \<le> b \<and> b \<le> upper) then
        0xFFFD # utf8_decode_loop 0 0 0 0x80 0xBF (b # bs)
      else if seen + 1 \<noteq> needed then
        utf8_decode_loop (cp * 64 + b mod 64) (seen + 1) needed 0x80 0xBF bs
      else (cp * 64 + b mod 64) # utf8_decode_loop 0 0 0 0x80 0xBF bs)"
  by pat_completeness auto
termination
  by (relation "measure (\<lambda>(cp, seen, needed, lower, upper, bs).
                  2 * length bs + (if needed = 0 then 0 else 1))") auto

declare utf8_decode_loop.simps [simp del]

definition utf8_decode :: "nat list \<Rightarrow> nat list" where
  "utf8_decode bs = utf8_decode_loop 0 0 0 0x80 0xBF bs"

text \<open>One code point as UTF-16 code units.\<close>

definition from_scalar :: "nat \<Rightarrow> jsstring" where
  "from_scalar cp =
     (if cp < 0x10000 then [cp]
      else [0xD800 + (cp - 0x10000) div 1024, 0xDC00 + (cp - 0x10000) mod 1024])"

text \<open>
  \<^verbatim>\<open>new TextDecoder().decode(buffer)\<close>: with the default \<^verbatim>\<open>ignoreBOM = false\<close> a
  leading U+FEFF is dropped from the output.
\<close>

definition text_decode :: "nat list \<Rightarrow> jsstring" where
  "text_decode bs =
     (let cps = utf8_decode bs in
      concat (map from_scalar
        (case cps of [] \<Rightarrow> [] | c # rest \<Rightarrow> if c = 0xFEFF then rest else cps)))"

text \<open>
  Base64. \<open>sextets\<close> cuts the bytes into 6-bit groups, the last one filled with zero
  bits; \<open>unsextets\<close> puts bytes together again and drops the bits left over.
\<close>

definition b64_alphabet :: string where
  "b64_alphabet = ''ABCDEFGHIJKLMNOPQRSTUVWXYZabcdefghijklmnopqrstuvwxyz0123456789+/''"

fun sextets :: "nat list \<Rightarrow> nat list" where
  "sextets [] = []"
| "sextets [a] = [a div 4, (a mod 4) * 16]"
| "sextets [a, b] = [a div 4, (a mod 4) * 16 + b div 16, (b mod 16) * 4]"
| "sextets (a # b # c # rest) =
     [a div 4, (a mod 4) * 16 + b div 16, (b mod 16) * 4 + c div 64, c mod 64] @ sextets rest"

fun unsextets :: "nat list \<Rightarrow> nat list" where
  "unsextets (p # q # r # s # rest) =
     [p * 4 + q div 16, (q mod 16) * 16 + r div 4, (r mod 4) * 64 + s] @ unsextets rest"
| "unsextets [p, q, r] = [p * 4 + q div 16, (q mod 16) * 16 + r div 4]"
| "unsextets [p, q] = [p * 4 + q div 16]"
| "unsextets _ = []"

text \<open>The position of a character in the alphabet.\<close>

fun index_of :: "'a list \<Rightarrow> 'a \<Rightarrow> nat" where
  "index_of [] x = 0"
| "index_of (y # ys) x = (if x = y then 0 else Suc (index_of ys x))"

text \<open>
  \<^verbatim>\<open>String.fromCharCode(...array)\<close> passes one argument per element of the array. An
  engine accepts only so many arguments in one call; with more, the call throws a
  \<^verbatim>\<open>RangeError\<close>. The bound differs between engines and is the parameter \<open>limit\<close>.
  Within the bound, each element gives one code unit, its value modulo \<open>2^16\<close>.
\<close>

definition fromCharCode_spread :: "nat \<Rightarrow> nat list \<Rightarrow> jsstring option" where
  "fromCharCode_spread limit array =
     (if length array \<le> limit then Some (map (\<lambda>n. n mod 65536) array) else None)"

text \<open>
  \<^verbatim>\<open>btoa(string)\<close>: fails with an exception on a code unit above 255, else the padded
  Base64 text.
\<close>

definition btoa :: "nat list \<Rightarrow> string option" where
  "btoa units =
     (if list_all is_byte units
      then Some (map (\<lambda>n. b64_alphabet ! n) (sextets units)
                 @ replicate ((3 - length units mod 3) mod 3) CHR ''='')
      else None)"

text \<open>
  \<^verbatim>\<open>Uint8Array.from(atob(text), c => c.charCodeAt(0))\<close>, the forgiving Base64 decoding:
  ASCII whitespace is removed, one or two padding characters are removed from a text whose
  length is a multiple of four, and the rest must be alphabet characters, not one more
  than a multiple of four.
\<close>

definition ascii_whitespace :: "char \<Rightarrow> bool" where
  "ascii_whitespace c \<longleftrightarrow> c \<in> set [CHR 0x09, CHR 0x0A, CHR 0x0C, CHR 0x0D, CHR 0x20]"

definition strip_padding :: "string \<Rightarrow> string" where
  "strip_padding s =
     (if length s mod 4 = 0 \<and> s \<noteq> [] \<and> last s = CHR ''='' then
        (if butlast s \<noteq> [] \<and> last (butlast s) = CHR ''='' then butlast (butlast s)
         else butlast s)
      else s)"

definition atob :: "string \<Rightarrow> nat list option" where
  "atob text =
     (let s = strip_padding (filter (\<lambda>c. \<not> ascii_whitespace c) text) in
      if length s mod 4 = 1 \<or> \<not> list_all (\<lambda>c. c \<in> set b64_alphabet) s then None
      else Some (unsextets (map (index_of b64_alphabet) s)))"

text \<open>
  What the platform supplies: the AES-GCM primitive, \<^verbatim>\<open>crypto.subtle.encrypt\<close> and
  \<^verbatim>\<open>crypto.subtle.decrypt\<close> with a key, an IV and data (\<open>None\<close> is a rejected
  promise), and the number of arguments the engine accepts in one call.
\<close>

record 'k platform =
  aes_gcm_encrypt :: "'k \<Rightarrow> nat list \<Rightarrow> nat list \<Rightarrow> nat list option"
  aes_gcm_decrypt :: "'k \<Rightarrow> nat list \<Rightarrow> nat list \<Rightarrow> nat list option"
  max_arguments :: nat

record envelope =
  ciphertext :: string
  iv :: string
  env_timestamp :: int

datatype e2ee_error = FailedToEncrypt | FailedToDecrypt

text \<open>
  \<^verbatim>\<open>encryptMessage(message, key)\<close>; \<open>rnd\<close> is the 12 bytes drawn by
  \<^verbatim>\<open>crypto.getRandomValues\<close>. Any exception inside the \<^verbatim>\<open>try\<close> block becomes the
  error \<^verbatim>\<open>Failed to encrypt message\<close>: a rejected encryption, and a spread of the
  ciphertext or of the IV that has more elements than the engine accepts as arguments.
\<close>

definition encryptMessage ::
  "'k platform \<Rightarrow> nat list \<Rightarrow> int \<Rightarrow> jsstring \<Rightarrow> 'k \<Rightarrow> e2ee_error + envelope" where
  "encryptMessage host rnd now plaintext key =
     (let data = text_encode plaintext in
      case aes_gcm_encrypt host key rnd data of
        None \<Rightarrow> Inl FailedToEncrypt
      | Some encryptedBuffer \<Rightarrow>
          (case fromCharCode_spread (max_arguments host) encryptedBuffer of
             None \<Rightarrow> Inl FailedToEncrypt
           | Some encryptedChars \<Rightarrow>
               (case btoa encryptedChars of
                  None \<Rightarrow> Inl FailedToEncrypt
                | Some c \<Rightarrow>
                    (case fromCharCode_spread (max_arguments host) rnd of
                       None \<Rightarrow> Inl FailedToEncrypt
                     | Some ivChars \<Rightarrow>
                         (case btoa ivChars of
                            None \<Rightarrow> Inl FailedToEncrypt
                          | Some i \<Rightarrow>
                              Inr \<lparr>ciphertext = c, iv = i, env_timestamp = now\<rparr>)))))"

text \<open>
  \<^verbatim>\<open>decryptMessage(encryptedData, key)\<close>; any exception becomes the error
  \<^verbatim>\<open>Failed to decrypt message - invalid key or corrupted data\<close>.
\<close>

definition decryptMessage :: "'k platform \<Rightarrow> envelope \<Rightarrow> 'k \<Rightarrow> e2ee_error + jsstring" where
  "decryptMessage host encryptedData key =
     (case atob (ciphertext encryptedData) of
        None \<Rightarrow> Inl FailedToDecrypt
      | Some c \<Rightarrow>
          (case atob (iv encryptedData) of
             None \<Rightarrow> Inl FailedToDecrypt
           | Some i \<Rightarrow>
               (case aes_gcm_decrypt host key i c of
                  None \<Rightarrow> Inl FailedToDecrypt
                | Some decryptedBuffer \<Rightarrow> Inr (text_decode decryptedBuffer))))"

text \<open>A string without unpaired surrogates.\<close>

fun well_formed_utf16 :: "jsstring \<Rightarrow> bool" where
  "well_formed_utf16 [] = True"
| "well_formed_utf16 [c] = (\<not> high_surrogate c \<and> \<not> low_surrogate c)"
| "well_formed_utf16 (c # d # rest) =
     (if high_surrogate c then low_surrogate d \<and> well_formed_utf16 rest
      else \<not> low_surrogate c \<and> well_formed_utf16 (d # rest))"

text \<open>
  The host primitive works for a key, an IV and data when the encryption succeeds with the
  bytes \<open>c\<close> and the decryption of \<open>c\<close> with the same key and IV gives the data back.
  Nothing is asked about any other IV or data.
\<close>

definition aead_round_trip :: "'k platform \<Rightarrow> 'k \<Rightarrow> nat list \<Rightarrow> nat list \<Rightarrow> nat list \<Rightarrow> bool" where
  "aead_round_trip host key nonce data c \<longleftrightarrow>
     aes_gcm_encrypt host key nonce data = Some c \<and> list_all is_byte c \<and>
     aes_gcm_decrypt host key nonce c = Some data"

text \<open>
  The composition the round-trip property is about: encrypt, then decrypt the envelope
  with the same key.
\<close>

definition encrypt_then_decrypt ::
  "'k platform \<Rightarrow> nat list \<Rightarrow> int \<Rightarrow> jsstring \<Rightarrow> 'k \<Rightarrow> e2ee_error + jsstring" where
  "encrypt_then_decrypt host rnd now plaintext key =
     (case encryptMessage host rnd now plaintext key of
        Inl error \<Rightarrow> Inl error
      | Inr encryptedData \<Rightarrow> decryptMessage host encryptedData key)"

text \<open>Unicode scalar values: code points up to U+10FFFF that are not surrogates.\<close>

definition is_scalar :: "nat \<Rightarrow> bool" where
  "is_scalar cp \<longleftrightarrow> cp < 0x110000 \<and> \<not> (0xD800 \<le> cp \<and> cp \<le> 0xDFFF)"

text \<open>
  A stand-in platform for running examples. Its cipher reverses the data and appends one
  byte derived from the key as a tag, which decryption checks; its engine accepts 65536
  arguments in a call.
\<close>

definition demo_platform :: "nat platform" where
  "demo_platform =
     \<lparr>aes_gcm_encrypt = (\<lambda>k nonce data. Some (rev data @ [k mod 256])),
      aes_gcm_decrypt = (\<lambda>k nonce c.
         if c \<noteq> [] \<and> last c = k mod 256 then Some (rev (butlast c)) else None),
      max_arguments = 65536\<rparr>"

definition demo_iv :: "nat list" where
  "demo_iv = [1, 2, 3, 4, 5, 6, 7, 8, 9, 10, 11, 12]"

section \<open>Properties of the rate limiter\<close>

lemma filter_window_mono:
  "t \<le> t' \<Longrightarrow> filter (\<lambda>x. t - x < (w::int) \<and> t' - x < w) xs = filter (\<lambda>x. t' - x < w) xs"
  by (rule filter_cong) auto

lemma allowed_step:
  assumes "checkLimit rl t i = (r, s)" "allowed r"
  shows "attempts s i = Some (recentAttempts rl t i @ [t])"
    and "maxAttempts s = maxAttempts rl" and "windowMs s = windowMs rl"
  using assms by (auto simp: checkLimit_def Let_def split: if_splits)

lemma allowed_count:
  assumes "checkLimit rl t i = (r, s)" "allowed r" "t \<le> t'" "t' - t < windowMs rl"
  shows "length (recentAttempts s t' i) = Suc (length (recentAttempts rl t' i))"
proof -
  have a: "attempts s i = Some (recentAttempts rl t i @ [t])" and w: "windowMs s = windowMs rl"
    using allowed_step[OF assms(1,2)] by auto
  show ?thesis
    using assms(3,4) by (simp add: recentAttempts_def a w filter_window_mono)
qed

lemma denied_result:
  assumes "checkLimit rl t i = (r, s)"
    and "maxAttempts rl \<le> int (length (recentAttempts rl t i))"
    and "0 < windowMs rl"
  shows "\<not> allowed r \<and> (\<exists>n. retryAfter r = Some n \<and> 0 < n)"
  using assms
  by (auto simp: checkLimit_def Let_def is_blocked_def ceil_div_def split: if_splits option.splits)

lemma checkLimit_keeps_limits:
  "maxAttempts (snd (checkLimit rl t i)) = maxAttempts rl \<and>
   windowMs (snd (checkLimit rl t i)) = windowMs rl"
  by (simp add: checkLimit_def Let_def)

lemma reset_then_check:
  "maxAttempts rl = 5 \<Longrightarrow>
   allowed (fst (checkLimit (reset rl i) t i)) \<and>
   attemptsLeft (fst (checkLimit (reset rl i) t i)) = Some 4"
  by (simp add: checkLimit_def reset_def is_blocked_def recentAttempts_def Let_def)

text \<open>
  Claim C2. With \<open>maxAttempts = 5\<close>: when five consecutive \<open>checkLimit\<close> calls for an
  identifier have been allowed and a sixth call falls within the window of the first, the
  sixth call is denied and reports a positive number of seconds to wait. After
  \<open>reset\<close>, applied to the state these calls have left or to any other state with
  that limit, the next call is allowed and reports four attempts left.
\<close>

theorem C2_sixth_call_denied:
  assumes m: "maxAttempts rl = 5"
    and c1: "checkLimit rl t1 i = (r1, s1)" and a1: "allowed r1"
    and c2: "checkLimit s1 t2 i = (r2, s2)" and a2: "allowed r2"
    and c3: "checkLimit s2 t3 i = (r3, s3)" and a3: "allowed r3"
    and c4: "checkLimit s3 t4 i = (r4, s4)" and a4: "allowed r4"
    and c5: "checkLimit s4 t5 i = (r5, s5)" and a5: "allowed r5"
    and c6: "checkLimit s5 t6 i = (r6, s6)"
    and ord: "t1 \<le> t2" "t2 \<le> t3" "t3 \<le> t4" "t4 \<le> t5" "t5 \<le> t6"
    and win: "t6 - t1 < windowMs rl"
    and m': "maxAttempts rl' = 5"
  shows "\<not> allowed r6 \<and> (\<exists>n. retryAfter r6 = Some n \<and> 0 < n)
       \<and> allowed (fst (checkLimit (reset s6 i) t i))
       \<and> attemptsLeft (fst (checkLimit (reset s6 i) t i)) = Some 4
       \<and> allowed (fst (checkLimit (reset rl' i) t i))
       \<and> attemptsLeft (fst (checkLimit (reset rl' i) t i)) = Some 4"
proof -
  note s1 = allowed_step[OF c1 a1]
  note s2 = allowed_step[OF c2 a2]
  note s3 = allowed_step[OF c3 a3]
  note s4 = allowed_step[OF c4 a4]
  note s5 = allowed_step[OF c5 a5]
  have w: "windowMs s1 = windowMs rl" "windowMs s2 = windowMs rl" "windowMs s3 = windowMs rl"
    "windowMs s4 = windowMs rl" "windowMs s5 = windowMs rl"
    using s1 s2 s3 s4 s5 by simp_all
  have mx: "maxAttempts s5 = 5" using s1 s2 s3 s4 s5 m by simp
  have n1: "length (recentAttempts s1 t6 i) = Suc (length (recentAttempts rl t6 i))"
    using allowed_count[OF c1 a1, of t6] ord win by simp
  have n2: "length (recentAttempts s2 t6 i) = Suc (length (recentAttempts s1 t6 i))"
    using allowed_count[OF c2 a2, of t6] ord win w by simp
  have n3: "length (recentAttempts s3 t6 i) = Suc (length (recentAttempts s2 t6 i))"
    using allowed_count[OF c3 a3, of t6] ord win w by simp
  have n4: "length (recentAttempts s4 t6 i) = Suc (length (recentAttempts s3 t6 i))"
    using allowed_count[OF c4 a4, of t6] ord win w by simp
  have n5: "length (recentAttempts s5 t6 i) = Suc (length (recentAttempts s4 t6 i))"
    using allowed_count[OF c5 a5, of t6] ord win w by simp
  have "maxAttempts s5 \<le> int (length (recentAttempts s5 t6 i))"
    using mx n1 n2 n3 n4 n5 by simp
  moreover have "0 < windowMs s5" using w ord win by simp
  ultimately have "\<not> allowed r6 \<and> (\<exists>n. retryAfter r6 = Some n \<and> 0 < n)"
    using denied_result[OF c6] by blast
  moreover have "maxAttempts s6 = 5"
    using checkLimit_keeps_limits[of s5 t6 i] c6 mx by simp
  ultimately show ?thesis
    using reset_then_check[OF m', of i t] reset_then_check[of s6 i t] by blast
qed


lemma blocked_step:
  assumes "blockedUntil s i = Some d" "0 \<le> t" "t < d"
  shows "checkLimit s t i =
     (\<lparr>allowed = False, retryAfter = Some (ceil_div (d - t) 1000), attemptsLeft = None,
       message = Some (''Muitas tentativas. Tente novamente em ''
                       @ show_int (ceil_div (d - t) 1000) @ ''s'')\<rparr>, s)"
  using assms by (simp add: checkLimit_def is_blocked_def)

lemma other_ident_step:
  assumes "j \<noteq> i"
  shows "attempts (snd (checkLimit s t j)) i = attempts s i
       \<and> blockedUntil (snd (checkLimit s t j)) i = blockedUntil s i"
  using assms by (simp add: checkLimit_def Let_def)

lemma calls_while_blocked:
  assumes "blockedUntil s i = Some d"
    and "\<forall>(t, j) \<in> set cs. j = i \<longrightarrow> 0 \<le> t \<and> t < d"
    and "checkLimit_calls s cs = (rs, s')"
  shows "attempts s' i = attempts s i \<and> blockedUntil s' i = Some d \<and> length rs = length cs
       \<and> (\<forall>k < length cs. snd (cs ! k) = i \<longrightarrow>
             \<not> allowed (rs ! k) \<and> attemptsLeft (rs ! k) = None \<and>
             retryAfter (rs ! k) = Some (ceil_div (d - fst (cs ! k)) 1000))"
  using assms
proof (induction cs arbitrary: s rs)
  case Nil
  then show ?case by simp
next
  case (Cons c cs)
  obtain t j where c: "c = (t, j)" by (cases c)
  obtain r s1 where st: "checkLimit s t j = (r, s1)" by (cases "checkLimit s t j")
  obtain rs1 where rest: "checkLimit_calls s1 cs = (rs1, s')" and rs: "rs = r # rs1"
    using Cons.prems(3) c st by (auto split: prod.splits)
  have keep: "attempts s1 i = attempts s i \<and> blockedUntil s1 i = Some d"
  proof (cases "j = i")
    case True
    with Cons.prems(1,2) c st blocked_step[of s i d t] show ?thesis by auto
  next
    case False
    with other_ident_step[of j i s t] st Cons.prems(1) show ?thesis by simp
  qed
  have head: "j = i \<Longrightarrow> \<not> allowed r \<and> attemptsLeft r = None \<and> retryAfter r = Some (ceil_div (d - t) 1000)"
    using Cons.prems(1,2) c st blocked_step[of s i d t] by auto
  have ih: "attempts s' i = attempts s1 i \<and> blockedUntil s' i = Some d \<and> length rs1 = length cs
       \<and> (\<forall>k < length cs. snd (cs ! k) = i \<longrightarrow>
             \<not> allowed (rs1 ! k) \<and> attemptsLeft (rs1 ! k) = None \<and>
             retryAfter (rs1 ! k) = Some (ceil_div (d - fst (cs ! k)) 1000))"
    using Cons.IH[of s1 rs1] keep Cons.prems(2) rest by simp
  show ?case
  proof (intro conjI allI impI)
    fix k assume k: "k < length (c # cs)" and ki: "snd ((c # cs) ! k) = i"
    show "\<not> allowed (rs ! k)" "attemptsLeft (rs ! k) = None"
      "retryAfter (rs ! k) = Some (ceil_div (d - fst ((c # cs) ! k)) 1000)"
      using k ki head ih c rs by (cases k; simp)+
  qed (use ih keep rs in simp_all)
qed

lemma sets_block_step:
  assumes "sets_block rl t0 i" "checkLimit rl t0 i = (r0, s0)"
  shows "\<not> allowed r0 \<and> retryAfter r0 = Some (ceil_div (windowMs rl) 1000)
       \<and> attempts s0 i = attempts rl i \<and> blockedUntil s0 i = Some (t0 + windowMs rl)"
  using assms by (auto simp: sets_block_def checkLimit_def Let_def)

text \<open>
  Claim C7. When a \<open>checkLimit\<close> call sets a block, the deadline is exactly
  \<open>windowMs\<close> after that call. Every later call for the identifier before the deadline
  (interleaved with calls for any identifiers) is denied, reports the remaining seconds up
  to the deadline and records no attempt: the attempt history and the deadline of the
  identifier stay as they were. The block is in force exactly until the deadline.
\<close>

theorem C7_block_holds_for_window:
  assumes "sets_block rl t0 i"
    and "checkLimit rl t0 i = (r0, s0)"
    and "\<forall>(t, j) \<in> set cs. j = i \<longrightarrow> 0 \<le> t \<and> t < t0 + windowMs rl"
    and "checkLimit_calls s0 cs = (rs, s')"
  shows "\<not> allowed r0 \<and> retryAfter r0 = Some (ceil_div (windowMs rl) 1000)
       \<and> blockedUntil s0 i = Some (t0 + windowMs rl)
       \<and> (\<forall>k < length cs. snd (cs ! k) = i \<longrightarrow>
             \<not> allowed (rs ! k) \<and>
             retryAfter (rs ! k) = Some (ceil_div (t0 + windowMs rl - fst (cs ! k)) 1000))
       \<and> attempts s' i = attempts rl i
       \<and> blockedUntil s' i = Some (t0 + windowMs rl)
       \<and> (\<forall>t\<ge>0. is_blocked s' t i \<longleftrightarrow> t < t0 + windowMs rl)"
proof -
  note b = sets_block_step[OF assms(1,2)]
  from b have d: "blockedUntil s0 i = Some (t0 + windowMs rl)" by simp
  note c = calls_while_blocked[OF d assms(3,4)]
  have "\<forall>t\<ge>0. is_blocked s' t i \<longleftrightarrow> t < t0 + windowMs rl"
    using c by (auto simp: is_blocked_def)
  with b c show ?thesis by simp
qed


lemma demo_allowed_step:
  "length xs < 5 \<Longrightarrow> \<forall>x\<in>set xs. t - x < 300000 \<Longrightarrow>
   checkLimit (demo_limiter xs) t ''vault-unlock'' =
     (\<lparr>allowed = True, retryAfter = None, attemptsLeft = Some (4 - int (length xs)),
       message = None\<rparr>, demo_limiter (xs @ [t]))"
  by (simp add: checkLimit_def demo_limiter_def is_blocked_def recentAttempts_def Let_def)

lemma demo_first_step:
  "checkLimit (new_RateLimiter 5 300000) t ''vault-unlock'' =
     (\<lparr>allowed = True, retryAfter = None, attemptsLeft = Some 4,
       message = None\<rparr>, demo_limiter [t])"
  by (simp add: checkLimit_def new_RateLimiter_def demo_limiter_def is_blocked_def recentAttempts_def Let_def)

theorem C2_sixth_call_denied_witness:
  "\<not> allowed (fst (checkLimit (demo_limiter [1000, 2000, 3000, 4000, 5000]) 6000 ''vault-unlock''))
   \<and> (\<exists>n. retryAfter (fst (checkLimit (demo_limiter [1000, 2000, 3000, 4000, 5000]) 6000
                 ''vault-unlock'')) = Some n \<and> 0 < n)
   \<and> allowed (fst (checkLimit (reset (demo_limiter [1000, 2000, 3000, 4000, 5000]) ''vault-unlock'')
                 7000 ''vault-unlock''))
   \<and> attemptsLeft (fst (checkLimit (reset (demo_limiter [1000, 2000, 3000, 4000, 5000])
                 ''vault-unlock'') 7000 ''vault-unlock'')) = Some 4"
proof -
  let ?i = "''vault-unlock''"
  let ?ok = "\<lambda>n. \<lparr>allowed = True, retryAfter = None, attemptsLeft = Some n, message = None\<rparr>"
  have c1: "checkLimit (new_RateLimiter 5 300000) 1000 ?i = (?ok 4, demo_limiter [1000])"
    by (rule demo_first_step)
  have c2: "checkLimit (demo_limiter [1000]) 2000 ?i = (?ok 3, demo_limiter [1000, 2000])"
    using demo_allowed_step[of "[1000]" 2000] by simp
  have c3: "checkLimit (demo_limiter [1000, 2000]) 3000 ?i = (?ok 2, demo_limiter [1000, 2000, 3000])"
    using demo_allowed_step[of "[1000, 2000]" 3000] by simp
  have c4: "checkLimit (demo_limiter [1000, 2000, 3000]) 4000 ?i
              = (?ok 1, demo_limiter [1000, 2000, 3000, 4000])"
    using demo_allowed_step[of "[1000, 2000, 3000]" 4000] by simp
  have c5: "checkLimit (demo_limiter [1000, 2000, 3000, 4000]) 5000 ?i
              = (?ok 0, demo_limiter [1000, 2000, 3000, 4000, 5000])"
    using demo_allowed_step[of "[1000, 2000, 3000, 4000]" 5000] by simp
  have c6: "checkLimit (demo_limiter [1000, 2000, 3000, 4000, 5000]) 6000 ?i
              = (fst (checkLimit (demo_limiter [1000, 2000, 3000, 4000, 5000]) 6000 ?i),
                 snd (checkLimit (demo_limiter [1000, 2000, 3000, 4000, 5000]) 6000 ?i))"
    by simp
  have m: "maxAttempts (new_RateLimiter 5 300000 :: string rate_limiter) = 5"
    by (simp add: new_RateLimiter_def)
  have w: "(6000::int) - 1000 < windowMs (new_RateLimiter 5 300000 :: string rate_limiter)"
    by (simp add: new_RateLimiter_def)
  have m': "maxAttempts (demo_limiter [1000, 2000, 3000, 4000, 5000]) = 5"
    by (simp add: demo_limiter_def)
  show ?thesis
    using C2_sixth_call_denied[OF m c1 _ c2 _ c3 _ c4 _ c5 _ c6 _ _ _ _ _ w m', of 7000]
    by simp
qed

theorem C7_block_holds_for_window_witness:
  "\<not> allowed (fst (checkLimit (demo_limiter [1000, 2000, 3000, 4000, 5000]) 6000 ''vault-unlock''))
   \<and> blockedUntil (snd (checkLimit (demo_limiter [1000, 2000, 3000, 4000, 5000]) 6000 ''vault-unlock''))
        ''vault-unlock'' = Some 306000
   \<and> retryAfter (fst (checkLimit_calls
          (snd (checkLimit (demo_limiter [1000, 2000, 3000, 4000, 5000]) 6000 ''vault-unlock''))
          [(7000, ''vault-unlock''), (8000, ''zk-proof''), (305999, ''vault-unlock'')]) ! 2) = Some 1
   \<and> attempts (snd (checkLimit_calls
          (snd (checkLimit (demo_limiter [1000, 2000, 3000, 4000, 5000]) 6000 ''vault-unlock''))
          [(7000, ''vault-unlock''), (8000, ''zk-proof''), (305999, ''vault-unlock'')]))
        ''vault-unlock'' = Some [1000, 2000, 3000, 4000, 5000]"
proof -
  let ?i = "''vault-unlock''"
  let ?rl = "demo_limiter [1000, 2000, 3000, 4000, 5000]"
  let ?cs = "[(7000, ''vault-unlock''), (8000, ''zk-proof''), (305999, ''vault-unlock'')]"
  have sb: "sets_block ?rl 6000 ?i"
    by (simp add: sets_block_def is_blocked_def recentAttempts_def demo_limiter_def)
  have c0: "checkLimit ?rl 6000 ?i = (fst (checkLimit ?rl 6000 ?i), snd (checkLimit ?rl 6000 ?i))"
    by simp
  have h: "\<forall>(t, j) \<in> set ?cs. j = ?i \<longrightarrow> 0 \<le> t \<and> t < 6000 + windowMs ?rl"
    by (simp add: demo_limiter_def)
  have cc: "checkLimit_calls (snd (checkLimit ?rl 6000 ?i)) ?cs
     = (fst (checkLimit_calls (snd (checkLimit ?rl 6000 ?i)) ?cs),
        snd (checkLimit_calls (snd (checkLimit ?rl 6000 ?i)) ?cs))"
    by simp
  have a: "attempts ?rl ?i = Some [1000, 2000, 3000, 4000, 5000]" "windowMs ?rl = 300000"
    by (simp_all add: demo_limiter_def)
  have cd: "ceil_div (6000 + 300000 - 305999) 1000 = 1"
    by (simp add: ceil_div_def)
  show ?thesis
    using C7_block_holds_for_window[OF sb c0 h cc] a cd
    by (simp del: checkLimit_calls.simps)
qed

section \<open>Properties of the key cache\<close>

lemma get_other_key:
  "k' \<noteq> k \<Longrightarrow> cache (snd (get_cache kc now k')) k = cache kc k"
  by (simp add: get_cache_def split: option.splits)

lemma get_live:
  assumes "cache kc k = Some e" "now \<le> expiresAt e"
  shows "fst (get_cache kc now k) = Some (cvalue e)"
    and "cache (snd (get_cache kc now k)) k = Some (e\<lparr>hits := hits e + 1\<rparr>)"
  using assms by (simp_all add: get_cache_def)

lemma get_expired:
  assumes "cache kc k = Some e" "now > expiresAt e"
  shows "fst (get_cache kc now k) = None" and "cache (snd (get_cache kc now k)) k = None"
  using assms by (simp_all add: get_cache_def)

lemma get_calls_live:
  assumes "cache kc k = Some e"
    and "\<forall>(now, k') \<in> set cs. k' = k \<longrightarrow> now \<le> expiresAt e"
    and "get_calls kc cs = (rs, kc')"
  shows "(\<exists>e'. cache kc' k = Some e' \<and> expiresAt e' = expiresAt e \<and> cvalue e' = cvalue e
              \<and> createdAt e' = createdAt e)
       \<and> length rs = length cs
       \<and> (\<forall>n < length cs. snd (cs ! n) = k \<longrightarrow> rs ! n = Some (cvalue e))"
  using assms
proof (induction cs arbitrary: kc rs e)
  case Nil
  then show ?case by simp
next
  case (Cons c cs)
  obtain now k' where c: "c = (now, k')" by (cases c)
  obtain r kc1 where st: "get_cache kc now k' = (r, kc1)" by (cases "get_cache kc now k'")
  obtain rs1 where rest: "get_calls kc1 cs = (rs1, kc')" and rs: "rs = r # rs1"
    using Cons.prems(3) c st by (auto split: prod.splits)
  have keep: "\<exists>e1. cache kc1 k = Some e1 \<and> expiresAt e1 = expiresAt e \<and> cvalue e1 = cvalue e
                 \<and> createdAt e1 = createdAt e"
  proof (cases "k' = k")
    case True
    with Cons.prems(1,2) c st get_live(2)[of kc k e now] show ?thesis by auto
  next
    case False
    with get_other_key[of k' k kc now] st Cons.prems(1) show ?thesis by simp
  qed
  then obtain e1 where e1: "cache kc1 k = Some e1" "expiresAt e1 = expiresAt e"
    "cvalue e1 = cvalue e" "createdAt e1 = createdAt e" by blast
  have head: "k' = k \<Longrightarrow> r = Some (cvalue e)"
    using Cons.prems(1,2) c st get_live(1)[of kc k e now] by auto
  have ih: "(\<exists>e'. cache kc' k = Some e' \<and> expiresAt e' = expiresAt e1 \<and> cvalue e' = cvalue e1
              \<and> createdAt e' = createdAt e1)
       \<and> length rs1 = length cs
       \<and> (\<forall>n < length cs. snd (cs ! n) = k \<longrightarrow> rs1 ! n = Some (cvalue e1))"
    using Cons.IH[of kc1 e1 rs1] e1 Cons.prems(2) rest by simp
  show ?case
  proof (intro conjI allI impI)
    fix n assume n: "n < length (c # cs)" and nk: "snd ((c # cs) ! n) = k"
    show "rs ! n = Some (cvalue e)"
      using n nk head ih c rs e1 by (cases n) simp_all
  qed (use ih e1 rs in simp_all)
qed


lemma set_then_lookup:
  "cache (set_cache kc t t2 k v ttl) k =
     Some \<lparr>cvalue = v, expiresAt = t + (case ttl of None \<Rightarrow> defaultTTL kc | Some x \<Rightarrow> x),
           createdAt = t2, hits = 0\<rparr>"
  by (simp add: set_cache_def Let_def)

text \<open>
  Claim C3. Let an entry be stored with \<open>set\<close> at clock reading \<open>t\<close> under the cache
  key of a (password, salt) pair, with lifetime \<open>life\<close> (the given ttl, or the default).
  A \<open>get\<close> at the same reading returns the stored value when the lifetime is not
  negative. After any sequence of reads (of any keys) in which every read of this key
  happens no later than \<open>t + life\<close>, each such read returned the value and the entry's
  expiry is still \<open>t + life\<close>: reads never extend the lifetime. A further \<open>get\<close> up
  to the expiry returns the value and leaves the expiry unchanged; a \<open>get\<close> after the
  expiry returns nothing and removes the entry.
\<close>

theorem C3_cache_ttl_fixed_at_set:
  assumes "k = generateCacheKey password salt"
    and "life = (case ttl of None \<Rightarrow> defaultTTL kc | Some x \<Rightarrow> x)"
    and "kc1 = set_cache kc t t2 k v ttl"
    and "get_calls kc1 reads = (outs, kc2)"
    and "\<forall>(now, k') \<in> set reads. k' = k \<longrightarrow> now \<le> t + life"
  shows "(0 \<le> life \<longrightarrow> fst (get_cache kc1 t k) = Some v)
       \<and> (\<forall>n < length reads. snd (reads ! n) = k \<longrightarrow> outs ! n = Some v)
       \<and> map_option expiresAt (cache kc2 k) = Some (t + life)
       \<and> (\<forall>now. now \<le> t + life \<longrightarrow>
             fst (get_cache kc2 now k) = Some v \<and>
             map_option expiresAt (cache (snd (get_cache kc2 now k)) k) = Some (t + life))
       \<and> (\<forall>now. t + life < now \<longrightarrow>
             fst (get_cache kc2 now k) = None \<and> cache (snd (get_cache kc2 now k)) k = None)"
proof -
  let ?e = "\<lparr>cvalue = v, expiresAt = t + life, createdAt = t2, hits = 0\<rparr>"
  have e: "cache kc1 k = Some ?e"
    using assms(2,3) set_then_lookup[of kc t t2 k v ttl] by simp
  have first: "0 \<le> life \<longrightarrow> fst (get_cache kc1 t k) = Some v"
    using get_live(1)[OF e, of t] by simp
  have reads: "\<forall>(now, k') \<in> set reads. k' = k \<longrightarrow> now \<le> expiresAt ?e"
    using assms(5) by simp
  from get_calls_live[OF e reads assms(4)]
  obtain e' where e': "cache kc2 k = Some e'" "expiresAt e' = t + life" "cvalue e' = v"
    and outs: "\<forall>n < length reads. snd (reads ! n) = k \<longrightarrow> outs ! n = Some v"
    by auto
  have live: "\<forall>now. now \<le> t + life \<longrightarrow>
             fst (get_cache kc2 now k) = Some v \<and>
             map_option expiresAt (cache (snd (get_cache kc2 now k)) k) = Some (t + life)"
    using get_live[OF e'(1)] e'(2,3) by simp
  have dead: "\<forall>now. t + life < now \<longrightarrow>
             fst (get_cache kc2 now k) = None \<and> cache (snd (get_cache kc2 now k)) k = None"
    using get_expired[OF e'(1)] e'(2) by simp
  show ?thesis
    using first outs e' live dead by simp
qed

lemma digits_distinct: "distinct ''0123456789abcdefghijklmnopqrstuvwxyz''"
  by simp

lemma digit_char_inj:
  assumes "m < 36" "n < 36" "digit_char m = digit_char n"
  shows "m = n"
proof -
  have "length ''0123456789abcdefghijklmnopqrstuvwxyz'' = 36" by simp
  with assms digits_distinct show ?thesis
    by (metis digit_char.simps nth_eq_iff_index_eq)
qed

lemma digit_char_mem:
  "n < 36 \<Longrightarrow> digit_char n \<in> set ''0123456789abcdefghijklmnopqrstuvwxyz''"
proof -
  assume "n < 36"
  then have "n < length ''0123456789abcdefghijklmnopqrstuvwxyz''" by simp
  then show ?thesis unfolding digit_char.simps by (rule nth_mem)
qed

lemma to_radix_nonempty: "2 \<le> b \<Longrightarrow> to_radix b n \<noteq> []"
  by (subst to_radix.simps) simp

lemma to_radix_chars:
  "2 \<le> b \<Longrightarrow> b \<le> 36 \<Longrightarrow> set (to_radix b n) \<subseteq> set ''0123456789abcdefghijklmnopqrstuvwxyz''"
proof (induction b n rule: to_radix.induct)
  case (1 b n)
  show ?case
  proof (cases "n < b")
    case True
    then have "to_radix b n = [digit_char n]" using 1(2) by (subst to_radix.simps) simp
    moreover have "n < 36" using True 1(3) by simp
    ultimately show ?thesis using digit_char_mem[of n] by simp
  next
    case False
    then have eq: "to_radix b n = to_radix b (n div b) @ [digit_char (n mod b)]"
      using 1(2) by (subst to_radix.simps) simp
    have "0 < b" using 1(2) by simp
    then have "n mod b < b" by simp
    then have "n mod b < 36" using 1(3) by simp
    with digit_char_mem[of "n mod b"] 1 False show ?thesis
      unfolding eq by simp
  qed
qed

lemma to_radix_inj:
  "2 \<le> b \<Longrightarrow> b \<le> 36 \<Longrightarrow> to_radix b m = to_radix b n \<Longrightarrow> m = n"
proof (induction b m arbitrary: n rule: to_radix.induct)
  case (1 b m)
  have b0: "0 < b" using 1(2) by simp
  have md: "\<And>x. x mod b < 36" using b0 1(3)
    by (meson mod_less_divisor less_le_trans)
  show ?case
  proof (cases "m < b")
    case True
    then have m: "to_radix b m = [digit_char m]" using 1(2) by (subst to_radix.simps) simp
    show ?thesis
    proof (cases "n < b")
      case nb: True
      then have "to_radix b n = [digit_char n]" using 1(2) by (subst to_radix.simps) simp
      with m 1(4) have "digit_char m = digit_char n" by simp
      moreover have "m < 36" "n < 36" using True nb 1(3) by simp_all
      ultimately show ?thesis by (rule digit_char_inj[rotated 2])
    next
      case False
      then have "to_radix b n = to_radix b (n div b) @ [digit_char (n mod b)]"
        using 1(2) by (subst to_radix.simps) simp
      with m 1(4) to_radix_nonempty[OF 1(2), of "n div b"] show ?thesis by simp
    qed
  next
    case mb: False
    then have m: "to_radix b m = to_radix b (m div b) @ [digit_char (m mod b)]"
      using 1(2) by (subst to_radix.simps) simp
    show ?thesis
    proof (cases "n < b")
      case True
      then have "to_radix b n = [digit_char n]" using 1(2) by (subst to_radix.simps) simp
      with m 1(4) to_radix_nonempty[OF 1(2), of "m div b"] show ?thesis by simp
    next
      case False
      then have n: "to_radix b n = to_radix b (n div b) @ [digit_char (n mod b)]"
        using 1(2) by (subst to_radix.simps) simp
      from m n 1(4) have pre: "to_radix b (m div b) = to_radix b (n div b)"
        and dig: "digit_char (m mod b) = digit_char (n mod b)" by simp_all
      have "m div b = n div b" using 1(1)[OF _ mb 1(2,3) pre] 1(2) by simp
      moreover have "m mod b = n mod b" using digit_char_inj[OF md md dig] .
      ultimately show ?thesis by (metis div_mult_mod_eq)
    qed
  qed
qed

lemma split_at_fresh:
  assumes "c \<notin> set xs" "c \<notin> set xs'" "xs @ c # ys = xs' @ c # ys'"
  shows "xs = xs' \<and> ys = ys'"
  using assms
proof (induction xs arbitrary: xs')
  case Nil
  then show ?case by (cases xs') auto
next
  case (Cons a xs)
  then show ?case by (cases xs') auto
qed

lemma simpleHash_no_underscore: "CHR ''_'' \<notin> set (simpleHash str)"
proof -
  have "set (simpleHash str) \<subseteq> set ''0123456789abcdefghijklmnopqrstuvwxyz''"
    unfolding simpleHash_def by (rule to_radix_chars) simp_all
  then show ?thesis by auto
qed

lemma simpleHash_eq_iff:
  "simpleHash a = simpleHash b \<longleftrightarrow> \<bar>hash_loop 0 a\<bar> = \<bar>hash_loop 0 b\<bar>"
proof
  assume "simpleHash a = simpleHash b"
  then have "nat \<bar>hash_loop 0 a\<bar> = nat \<bar>hash_loop 0 b\<bar>"
    unfolding simpleHash_def by (intro to_radix_inj[of 36]) simp_all
  then show "\<bar>hash_loop 0 a\<bar> = \<bar>hash_loop 0 b\<bar>" by simp
next
  assume "\<bar>hash_loop 0 a\<bar> = \<bar>hash_loop 0 b\<bar>"
  then show "simpleHash a = simpleHash b" by (simp add: simpleHash_def)
qed

lemma generateCacheKey_eq_iff:
  "generateCacheKey p1 s1 = generateCacheKey p2 s2 \<longleftrightarrow>
     \<bar>hash_loop 0 p1\<bar> = \<bar>hash_loop 0 p2\<bar> \<and>
     \<bar>hash_loop 0 (saltStr s1)\<bar> = \<bar>hash_loop 0 (saltStr s2)\<bar>"
proof -
  have "generateCacheKey p1 s1 = generateCacheKey p2 s2 \<longleftrightarrow>
        simpleHash p1 = simpleHash p2 \<and> simpleHash (saltStr s1) = simpleHash (saltStr s2)"
    unfolding generateCacheKey_def
    using split_at_fresh[OF simpleHash_no_underscore simpleHash_no_underscore,
        of p1 "simpleHash (saltStr s1)" p2 "simpleHash (saltStr s2)"]
    by auto
  then show ?thesis by (simp add: simpleHash_eq_iff)
qed


text \<open>
  Claim C8, as amended. The cache key is not collision-resistant: it is a function of two
  32-bit hash values only. Two (password, salt) pairs have the same cache key exactly
  when the absolute values of the \<open>simpleHash\<close> accumulators of the passwords agree and
  those of the salt strings agree. When the keys agree, a \<open>get\<close> for the second pair
  before the expiry returns the value stored for the first pair; when they differ, storing
  under the first pair does not change what a \<open>get\<close> for the second pair returns.
\<close>

theorem C8_cache_key_collision_criterion:
  "(generateCacheKey p1 s1 = generateCacheKey p2 s2 \<longleftrightarrow>
      \<bar>hash_loop 0 p1\<bar> = \<bar>hash_loop 0 p2\<bar> \<and>
      \<bar>hash_loop 0 (saltStr s1)\<bar> = \<bar>hash_loop 0 (saltStr s2)\<bar>)
   \<and> (generateCacheKey p1 s1 = generateCacheKey p2 s2 \<longrightarrow>
        now \<le> t + (case ttl of None \<Rightarrow> defaultTTL kc | Some x \<Rightarrow> x) \<longrightarrow>
        fst (get_cache (set_cache kc t t2 (generateCacheKey p1 s1) v ttl) now
               (generateCacheKey p2 s2)) = Some v)
   \<and> (generateCacheKey p1 s1 \<noteq> generateCacheKey p2 s2 \<longrightarrow>
        fst (get_cache (set_cache kc t t2 (generateCacheKey p1 s1) v ttl) now
               (generateCacheKey p2 s2))
        = fst (get_cache kc now (generateCacheKey p2 s2)))"
proof (intro conjI impI)
  show "generateCacheKey p1 s1 = generateCacheKey p2 s2 \<longleftrightarrow>
      \<bar>hash_loop 0 p1\<bar> = \<bar>hash_loop 0 p2\<bar> \<and>
      \<bar>hash_loop 0 (saltStr s1)\<bar> = \<bar>hash_loop 0 (saltStr s2)\<bar>"
    by (rule generateCacheKey_eq_iff)
next
  assume "generateCacheKey p1 s1 = generateCacheKey p2 s2"
    and "now \<le> t + (case ttl of None \<Rightarrow> defaultTTL kc | Some x \<Rightarrow> x)"
  then show "fst (get_cache (set_cache kc t t2 (generateCacheKey p1 s1) v ttl) now
               (generateCacheKey p2 s2)) = Some v"
    by (simp add: get_cache_def set_cache_def Let_def)
next
  assume "generateCacheKey p1 s1 \<noteq> generateCacheKey p2 s2"
  then show "fst (get_cache (set_cache kc t t2 (generateCacheKey p1 s1) v ttl) now
               (generateCacheKey p2 s2))
        = fst (get_cache kc now (generateCacheKey p2 s2))"
    by (simp add: get_cache_def set_cache_def Let_def split: option.splits)
qed

lemma js_string_examples:
  "js_string ''Aa'' = [65, 97]" "js_string ''BB'' = [66, 66]" "js_string ''Ab'' = [65, 98]"
  "js_string ''s'' = [115]"
  by (simp_all add: js_string_def)

lemma hash_loop_examples:
  "hash_loop 0 [65, 97] = 2112" "hash_loop 0 [66, 66] = 2112" "hash_loop 0 [65, 98] = 2113"
  "hash_loop 0 [115] = 115"
  by (simp_all add: to_int32_def)

lemma to_radix_examples:
  "to_radix 36 2112 = ''1mo''" "to_radix 36 2113 = ''1mp''" "to_radix 36 115 = ''37''"
  by (simp_all add: to_radix.simps)

lemma simpleHash_examples:
  "simpleHash (js_string ''Aa'') = ''1mo''" "simpleHash (js_string ''BB'') = ''1mo''"
  "simpleHash (js_string ''Ab'') = ''1mp''" "simpleHash (js_string ''s'') = ''37''"
  by (simp_all add: simpleHash_def js_string_examples hash_loop_examples to_radix_examples
      del: hash_loop.simps)

lemma generateCacheKey_examples:
  "generateCacheKey (js_string ''Aa'') (SaltString (js_string ''s'')) = ''1mo_37''"
  "generateCacheKey (js_string ''BB'') (SaltString (js_string ''s'')) = ''1mo_37''"
  "generateCacheKey (js_string ''Ab'') (SaltString (js_string ''s'')) = ''1mp_37''"
  by (simp_all add: generateCacheKey_def saltStr_def simpleHash_examples)

text \<open>
  Claim C8 as stated fails: the passwords \<open>Aa\<close> and \<open>BB\<close> with the same salt are
  distinct inputs with the same cache key, and a \<open>get\<close> for the second returns the value
  stored for the first.
\<close>

theorem C8_distinct_passwords_share_cache_key:
  "(js_string ''Aa'', SaltString (js_string ''s'')) \<noteq> (js_string ''BB'', SaltString (js_string ''s''))
   \<and> generateCacheKey (js_string ''Aa'') (SaltString (js_string ''s''))
       = generateCacheKey (js_string ''BB'') (SaltString (js_string ''s''))
   \<and> fst (get_cache
            (set_cache (new_KeyCache 300000) 1000 1000
               (generateCacheKey (js_string ''Aa'') (SaltString (js_string ''s'')))
               ''key derived for Aa'' None)
            2000 (generateCacheKey (js_string ''BB'') (SaltString (js_string ''s''))))
       = Some ''key derived for Aa''"
proof -
  have "js_string ''Aa'' \<noteq> js_string ''BB''"
    by (simp add: js_string_examples)
  then show ?thesis
    unfolding generateCacheKey_examples
    by (simp add: get_cache_def set_cache_def new_KeyCache_def Let_def)
qed

theorem C8_cache_key_collision_criterion_witness:
  "generateCacheKey (js_string ''Aa'') (SaltString (js_string ''s''))
     = generateCacheKey (js_string ''BB'') (SaltString (js_string ''s''))
   \<and> (2000::int) \<le> 1000 + 300000
   \<and> fst (get_cache
            (set_cache (new_KeyCache 300000) 1000 1000
               (generateCacheKey (js_string ''Aa'') (SaltString (js_string ''s'')))
               ''key derived for Aa'' None)
            2000 (generateCacheKey (js_string ''BB'') (SaltString (js_string ''s''))))
       = Some ''key derived for Aa''
   \<and> generateCacheKey (js_string ''Aa'') (SaltString (js_string ''s''))
     \<noteq> generateCacheKey (js_string ''Ab'') (SaltString (js_string ''s''))
   \<and> fst (get_cache
            (set_cache (new_KeyCache 300000) 1000 1000
               (generateCacheKey (js_string ''Aa'') (SaltString (js_string ''s'')))
               ''key derived for Aa'' None)
            2000 (generateCacheKey (js_string ''Ab'') (SaltString (js_string ''s''))))
       = fst (get_cache (new_KeyCache 300000 :: string key_cache) 2000
               (generateCacheKey (js_string ''Ab'') (SaltString (js_string ''s''))))"
proof -
  let ?s = "SaltString (js_string ''s'')"
  have eq: "generateCacheKey (js_string ''Aa'') ?s = generateCacheKey (js_string ''BB'') ?s"
    by (simp add: generateCacheKey_examples)
  have ne: "generateCacheKey (js_string ''Aa'') ?s \<noteq> generateCacheKey (js_string ''Ab'') ?s"
    by (simp add: generateCacheKey_examples)
  have life: "(2000::int) \<le> 1000 + (case None of None \<Rightarrow> defaultTTL (new_KeyCache 300000 :: string key_cache) | Some x \<Rightarrow> x)"
    by (simp add: new_KeyCache_def)
  show ?thesis
    using C8_cache_key_collision_criterion[where ?p1.0 = "js_string ''Aa''" and ?s1.0 = ?s
        and ?p2.0 = "js_string ''BB''" and ?s2.0 = ?s and now = 2000 and t = 1000 and ttl = None
        and kc = "new_KeyCache 300000" and ?t2.0 = 1000 and v = "''key derived for Aa''"]
      C8_cache_key_collision_criterion[where ?p1.0 = "js_string ''Aa''" and ?s1.0 = ?s
        and ?p2.0 = "js_string ''Ab''" and ?s2.0 = ?s and now = 2000 and t = 1000 and ttl = None
        and kc = "new_KeyCache 300000" and ?t2.0 = 1000 and v = "''key derived for Aa''"]
      eq ne life
    by simp
qed

theorem C3_cache_ttl_fixed_at_set_witness:
  "fst (get_cache (set_cache (new_KeyCache 300000) 1000 1000 ''1mo_37'' ''K'' (Some 60000))
          1000 ''1mo_37'') = Some ''K''
   \<and> fst (get_calls (set_cache (new_KeyCache 300000) 1000 1000 ''1mo_37'' ''K'' (Some 60000))
            [(31000, ''1mo_37''), (40000, ''1mp_37''), (61000, ''1mo_37'')]) ! 2 = Some ''K''
   \<and> map_option expiresAt
        (cache (snd (get_calls (set_cache (new_KeyCache 300000) 1000 1000 ''1mo_37'' ''K'' (Some 60000))
            [(31000, ''1mo_37''), (40000, ''1mp_37''), (61000, ''1mo_37'')])) ''1mo_37'') = Some 61000
   \<and> fst (get_cache
        (snd (get_calls (set_cache (new_KeyCache 300000) 1000 1000 ''1mo_37'' ''K'' (Some 60000))
            [(31000, ''1mo_37''), (40000, ''1mp_37''), (61000, ''1mo_37'')])) 61001 ''1mo_37'') = None
   \<and> cache (snd (get_cache
        (snd (get_calls (set_cache (new_KeyCache 300000) 1000 1000 ''1mo_37'' ''K'' (Some 60000))
            [(31000, ''1mo_37''), (40000, ''1mp_37''), (61000, ''1mo_37'')])) 61001 ''1mo_37''))
        ''1mo_37'' = None"
proof -
  let ?kc = "new_KeyCache 300000 :: string key_cache"
  let ?kc1 = "set_cache ?kc 1000 1000 ''1mo_37'' ''K'' (Some 60000)"
  let ?reads = "[(31000::int, ''1mo_37''), (40000, ''1mp_37''), (61000, ''1mo_37'')]"
  have k: "''1mo_37'' = generateCacheKey (js_string ''Aa'') (SaltString (js_string ''s''))"
    by (simp add: generateCacheKey_examples)
  have life: "(60000::int) = (case Some 60000 of None \<Rightarrow> defaultTTL ?kc | Some x \<Rightarrow> x)"
    by simp
  have gc: "get_calls ?kc1 ?reads = (fst (get_calls ?kc1 ?reads), snd (get_calls ?kc1 ?reads))"
    by simp
  have rd: "\<forall>(now, k') \<in> set ?reads. k' = ''1mo_37'' \<longrightarrow> now \<le> (1000::int) + 60000"
    by simp
  show ?thesis
    using C3_cache_ttl_fixed_at_set[OF k life refl gc rd]
    by (simp del: get_calls.simps)
qed

section \<open>Properties of password-proof verification\<close>

lemma verify_unknown:
  "challenges zk cid = None \<Longrightarrow> verifyPasswordProof zk now now2 p cid h = (JBool False, zk)"
  by (simp add: verifyPasswordProof_def verify_body_def)

lemma verify_expired:
  "challenges zk cid = Some cd \<Longrightarrow> now - timestamp cd > 300000 \<Longrightarrow>
   verifyPasswordProof zk now now2 p cid h
     = (JBool False, zk\<lparr>challenges := (challenges zk)(cid := None)\<rparr>)"
  by (simp add: verifyPasswordProof_def verify_body_def)

lemma verify_complete:
  "challenges zk cid = Some cd \<Longrightarrow> now - timestamp cd \<le> 300000 \<Longrightarrow> structurally_complete p \<Longrightarrow>
   verifyPasswordProof zk now now2 p cid h
     = (proof_salt (the p),
        zk\<lparr>challenges := (challenges zk)(cid \<mapsto> cd\<lparr>verified := True\<rparr>),
           proofs := (proofs zk)(cid \<mapsto> \<lparr>proof_verified = True, proof_timestamp = now2\<rparr>)\<rparr>)"
  by (auto simp: verifyPasswordProof_def verify_body_def structurally_complete_def js_and_def Let_def
      split: option.splits)

lemma verify_truthy_iff:
  "truthy (fst (verifyPasswordProof zk now now2 p cid h)) \<longleftrightarrow>
     structurally_complete p \<and> (\<exists>cd. challenges zk cid = Some cd \<and> now - timestamp cd \<le> 300000)"
  by (auto simp: verifyPasswordProof_def verify_body_def structurally_complete_def js_and_def Let_def
      split: option.splits)

lemma hex_byte_171: "hex_byte 171 = ''ab''"
  by (simp add: hex_byte_def to_radix.simps Let_def)

lemma demo_id: "arrayToHex demo_nonce = concat (replicate 32 ''ab'')"
  by (simp add: arrayToHex_def demo_nonce_def hex_byte_171)


lemma demo_challenge_state:
  "snd (generateChallenge new_ZeroKnowledge demo_nonce 1000) =
     \<lparr>challenges = [arrayToHex demo_nonce \<mapsto>
                       \<lparr>challenge = demo_nonce, timestamp = 1000, verified = False\<rparr>],
      proofs = Map.empty\<rparr>"
  by (simp add: generateChallenge_def new_ZeroKnowledge_def Let_def)

lemma demo_proof_complete: "structurally_complete (Some demo_proof)"
  by (simp add: structurally_complete_def demo_proof_def)

text \<open>
  Claim C4, evaluated on a fresh challenge and a complete proof: the challenge is marked
  verified and a verified-proof record is stored, and the value returned is the proof's
  salt string, which is truthy but is not the boolean \<open>true\<close>.
\<close>

theorem C4_complete_proof_returns_salt_value:
  "fst (verifyPasswordProof (snd (generateChallenge new_ZeroKnowledge demo_nonce 1000)) 2000 2001
          (Some demo_proof) (arrayToHex demo_nonce) ''stored-hash'') = JStr ''5a17''
   \<and> fst (verifyPasswordProof (snd (generateChallenge new_ZeroKnowledge demo_nonce 1000)) 2000 2001
          (Some demo_proof) (arrayToHex demo_nonce) ''stored-hash'') \<noteq> JBool True
   \<and> map_option verified
        (challenges (snd (verifyPasswordProof
             (snd (generateChallenge new_ZeroKnowledge demo_nonce 1000)) 2000 2001
             (Some demo_proof) (arrayToHex demo_nonce) ''stored-hash''))
           (arrayToHex demo_nonce)) = Some True
   \<and> proofs (snd (verifyPasswordProof
             (snd (generateChallenge new_ZeroKnowledge demo_nonce 1000)) 2000 2001
             (Some demo_proof) (arrayToHex demo_nonce) ''stored-hash''))
        (arrayToHex demo_nonce) = Some \<lparr>proof_verified = True, proof_timestamp = 2001\<rparr>"
proof -
  let ?zk = "snd (generateChallenge new_ZeroKnowledge demo_nonce 1000)"
  let ?cd = "\<lparr>challenge = demo_nonce, timestamp = 1000, verified = False\<rparr>"
  have c: "challenges ?zk (arrayToHex demo_nonce) = Some ?cd"
    by (simp add: demo_challenge_state)
  have "verifyPasswordProof ?zk 2000 2001 (Some demo_proof) (arrayToHex demo_nonce) ''stored-hash''
      = (proof_salt (the (Some demo_proof)),
         ?zk\<lparr>challenges := (challenges ?zk)(arrayToHex demo_nonce \<mapsto> ?cd\<lparr>verified := True\<rparr>),
             proofs := (proofs ?zk)(arrayToHex demo_nonce \<mapsto>
                \<lparr>proof_verified = True, proof_timestamp = 2001\<rparr>)\<rparr>)"
    by (rule verify_complete[OF c _ demo_proof_complete]) simp
  then show ?thesis by (simp add: demo_proof_def)
qed

text \<open>
  Claim C9 as stated fails: a second \<open>verifyPasswordProof\<close> call with the same challenge
  id succeeds after the first one succeeded.
\<close>

theorem C9_challenge_verifies_twice:
  "truthy (fst (verifyPasswordProof (snd (generateChallenge new_ZeroKnowledge demo_nonce 1000))
            2000 2001 (Some demo_proof) (arrayToHex demo_nonce) ''stored-hash''))
   \<and> truthy (fst (verifyPasswordProof
            (snd (verifyPasswordProof (snd (generateChallenge new_ZeroKnowledge demo_nonce 1000))
                    2000 2001 (Some demo_proof) (arrayToHex demo_nonce) ''stored-hash''))
            3000 3001 (Some demo_proof) (arrayToHex demo_nonce) ''stored-hash''))"
proof -
  let ?zk = "snd (generateChallenge new_ZeroKnowledge demo_nonce 1000)"
  let ?cd = "\<lparr>challenge = demo_nonce, timestamp = 1000, verified = False\<rparr>"
  have c: "challenges ?zk (arrayToHex demo_nonce) = Some ?cd"
    by (simp add: demo_challenge_state)
  have first: "verifyPasswordProof ?zk 2000 2001 (Some demo_proof) (arrayToHex demo_nonce) ''stored-hash''
      = (proof_salt (the (Some demo_proof)),
         ?zk\<lparr>challenges := (challenges ?zk)(arrayToHex demo_nonce \<mapsto> ?cd\<lparr>verified := True\<rparr>),
             proofs := (proofs ?zk)(arrayToHex demo_nonce \<mapsto>
                \<lparr>proof_verified = True, proof_timestamp = 2001\<rparr>)\<rparr>)"
    by (rule verify_complete[OF c _ demo_proof_complete]) simp
  have t1: "truthy (fst (verifyPasswordProof ?zk 2000 2001 (Some demo_proof)
                (arrayToHex demo_nonce) ''stored-hash''))"
    using c by (simp add: verify_truthy_iff demo_proof_complete)
  have t2: "truthy (fst (verifyPasswordProof
            (snd (verifyPasswordProof ?zk 2000 2001 (Some demo_proof) (arrayToHex demo_nonce)
                    ''stored-hash''))
            3000 3001 (Some demo_proof) (arrayToHex demo_nonce) ''stored-hash''))"
    unfolding first by (simp add: verify_truthy_iff demo_proof_complete)
  from t1 t2 show ?thesis by simp
qed

text \<open>
  Claim C9, as amended. A successful verification does not consume the challenge: it
  stays stored, marked verified. While the challenge is at most five minutes old, every
  later call with the same id and a structurally complete proof succeeds again; once it
  is older than five minutes, every call with that id returns \<open>false\<close> and removes it.
\<close>

theorem C9_challenge_reusable_until_expiry:
  assumes "truthy (fst (verifyPasswordProof zk now now2 p cid h))"
    and "zk1 = snd (verifyPasswordProof zk now now2 p cid h)"
  shows "\<exists>cd. challenges zk cid = Some cd
           \<and> challenges zk1 cid = Some (cd\<lparr>verified := True\<rparr>)
           \<and> (\<forall>now' now2' p' h'. structurally_complete p' \<longrightarrow> now' - timestamp cd \<le> 300000 \<longrightarrow>
                 truthy (fst (verifyPasswordProof zk1 now' now2' p' cid (h' :: 'b))))
           \<and> (\<forall>now' now2' p' h'. 300000 < now' - timestamp cd \<longrightarrow>
                 fst (verifyPasswordProof zk1 now' now2' p' cid (h' :: 'b)) = JBool False \<and>
                 challenges (snd (verifyPasswordProof zk1 now' now2' p' cid h')) cid = None)"
proof -
  from assms(1) obtain cd where cd: "challenges zk cid = Some cd" "now - timestamp cd \<le> 300000"
    and p: "structurally_complete p"
    by (auto simp: verify_truthy_iff)
  have zk1: "challenges zk1 cid = Some (cd\<lparr>verified := True\<rparr>)"
    using assms(2) verify_complete[OF cd p, of now2 h] by simp
  have again: "\<forall>now' now2' p' h'. structurally_complete p' \<longrightarrow> now' - timestamp cd \<le> 300000 \<longrightarrow>
                 truthy (fst (verifyPasswordProof zk1 now' now2' p' cid (h' :: 'b)))"
    using zk1 by (simp add: verify_truthy_iff)
  have gone: "\<forall>now' now2' p' h'. 300000 < now' - timestamp cd \<longrightarrow>
                 fst (verifyPasswordProof zk1 now' now2' p' cid (h' :: 'b)) = JBool False \<and>
                 challenges (snd (verifyPasswordProof zk1 now' now2' p' cid h')) cid = None"
  proof (intro allI impI)
    fix now' now2' :: int and p' and h' :: 'b
    assume "300000 < now' - timestamp cd"
    then have "300000 < now' - timestamp (cd\<lparr>verified := True\<rparr>)" by simp
    from verify_expired[OF zk1 this, of now2' p' h']
    show "fst (verifyPasswordProof zk1 now' now2' p' cid h') = JBool False \<and>
          challenges (snd (verifyPasswordProof zk1 now' now2' p' cid h')) cid = None"
      by simp
  qed
  from cd(1) zk1 again gone show ?thesis by blast
qed

theorem C9_challenge_reusable_until_expiry_witness:
  "truthy (fst (verifyPasswordProof (snd (generateChallenge new_ZeroKnowledge demo_nonce 1000))
            2000 2001 (Some demo_proof) (arrayToHex demo_nonce) ''stored-hash''))
   \<and> (\<exists>cd. challenges (snd (generateChallenge new_ZeroKnowledge demo_nonce 1000))
               (arrayToHex demo_nonce) = Some cd
         \<and> structurally_complete (Some demo_proof) \<and> 3000 - timestamp cd \<le> 300000
         \<and> truthy (fst (verifyPasswordProof
              (snd (verifyPasswordProof (snd (generateChallenge new_ZeroKnowledge demo_nonce 1000))
                      2000 2001 (Some demo_proof) (arrayToHex demo_nonce) ''stored-hash''))
              3000 3001 (Some demo_proof) (arrayToHex demo_nonce) ''stored-hash''))
         \<and> 300000 < 400000 - timestamp cd
         \<and> fst (verifyPasswordProof
              (snd (verifyPasswordProof (snd (generateChallenge new_ZeroKnowledge demo_nonce 1000))
                      2000 2001 (Some demo_proof) (arrayToHex demo_nonce) ''stored-hash''))
              400000 400001 (Some demo_proof) (arrayToHex demo_nonce) ''stored-hash'') = JBool False)"
proof -
  let ?zk = "snd (generateChallenge new_ZeroKnowledge demo_nonce 1000)"
  let ?cid = "arrayToHex demo_nonce"
  let ?cd = "\<lparr>challenge = demo_nonce, timestamp = 1000, verified = False\<rparr>"
  have c: "challenges ?zk ?cid = Some ?cd"
    by (simp add: demo_challenge_state)
  have t: "truthy (fst (verifyPasswordProof ?zk 2000 2001 (Some demo_proof) ?cid ''stored-hash''))"
    using c by (simp add: verify_truthy_iff demo_proof_complete)
  from C9_challenge_reusable_until_expiry[OF t refl, where 'b = string]
  obtain cd where cd: "challenges ?zk ?cid = Some cd"
    and again: "\<And>now' now2' p' h'. structurally_complete p' \<Longrightarrow> now' - timestamp cd \<le> 300000 \<Longrightarrow>
        truthy (fst (verifyPasswordProof
            (snd (verifyPasswordProof ?zk 2000 2001 (Some demo_proof) ?cid ''stored-hash''))
            now' now2' p' ?cid (h' :: string)))"
    and gone: "\<And>now' now2' p' h'. 300000 < now' - timestamp cd \<Longrightarrow>
        fst (verifyPasswordProof
            (snd (verifyPasswordProof ?zk 2000 2001 (Some demo_proof) ?cid ''stored-hash''))
            now' now2' p' ?cid (h' :: string)) = JBool False"
    by blast
  have ts: "timestamp cd = 1000" using c cd by simp
  have a: "3000 - timestamp cd \<le> 300000" and g: "300000 < 400000 - timestamp cd"
    using ts by simp_all
  show ?thesis
    using t cd demo_proof_complete a again[OF demo_proof_complete a] g gone[OF g]
    by blast
qed

text \<open>
  Claim C10. The stored password hash plays no part in \<open>verifyPasswordProof\<close>: for any two
  stored-hash values the returned value and the resulting state are the same, and the call
  is accepted exactly when the proof is structurally complete and the challenge exists and
  is at most five minutes old.
\<close>

theorem C10_stored_hash_is_ignored:
  "verifyPasswordProof zk now now2 p cid (h1 :: 'a) = verifyPasswordProof zk now now2 p cid (h2 :: 'b)
   \<and> (truthy (fst (verifyPasswordProof zk now now2 p cid h1)) \<longleftrightarrow>
        structurally_complete p \<and>
        (\<exists>cd. challenges zk cid = Some cd \<and> now - timestamp cd \<le> 300000))"
  by (simp add: verify_truthy_iff) (simp add: verifyPasswordProof_def verify_body_def)

section \<open>Properties of the worker manager\<close>


















section \<open>Properties of message encryption\<close>

lemma add_mult_mod: "(k * m + x) mod m = x mod (m::nat)"
  by simp

lemma lead_mod:
  "a < 32 \<Longrightarrow> (192 + a) mod 32 = (a::nat)"
  "a < 16 \<Longrightarrow> (224 + a) mod 16 = a"
  "a < 8 \<Longrightarrow> (240 + a) mod 8 = a"
  "b < 64 \<Longrightarrow> (128 + b) mod 64 = (b::nat)"
  using add_mult_mod[of 6 32 a] add_mult_mod[of 14 16 a] add_mult_mod[of 30 8 a]
    add_mult_mod[of 2 64 b]
  by simp_all

lemma decode_one_byte:
  assumes "cp < 128"
  shows "utf8_decode_loop 0 0 0 128 191 (cp # rest) = cp # utf8_decode_loop 0 0 0 128 191 rest"
  using assms by (simp add: utf8_decode_loop.simps)

lemma decode_two_digits:
  assumes "2 \<le> a" "a < 32" "b < 64"
  shows "utf8_decode_loop 0 0 0 128 191 ((192 + a) # (128 + b) # rest)
           = (a * 64 + b) # utf8_decode_loop 0 0 0 128 191 rest"
  using assms
  by (simp add: utf8_decode_loop.simps(2) lead_mod)

lemma decode_three_digits:
  assumes "a < 16" "b < 64" "c < 64" "a = 0 \<longrightarrow> 32 \<le> b" "a = 13 \<longrightarrow> b < 32"
  shows "utf8_decode_loop 0 0 0 128 191 ((224 + a) # (128 + b) # (128 + c) # rest)
           = ((a * 64 + b) * 64 + c) # utf8_decode_loop 0 0 0 128 191 rest"
  using assms
  by (auto simp: utf8_decode_loop.simps(2) lead_mod)

lemma decode_four_digits:
  assumes "a \<le> 4" "b < 64" "c < 64" "d < 64" "a = 0 \<longrightarrow> 16 \<le> b" "a = 4 \<longrightarrow> b < 16"
  shows "utf8_decode_loop 0 0 0 128 191 ((240 + a) # (128 + b) # (128 + c) # (128 + d) # rest)
           = (((a * 64 + b) * 64 + c) * 64 + d) # utf8_decode_loop 0 0 0 128 191 rest"
  using assms
  by (auto simp: utf8_decode_loop.simps(2) lead_mod)

lemma base64_digits:
  fixes n :: nat
  obtains x c where "n = x * 64 + c" "c < 64" "n div 64 = x" "n mod 64 = c"
proof
  show "n = (n div 64) * 64 + n mod 64" by simp
  show "n mod 64 < 64" by simp
qed simp_all

lemma div_4096: "(n::nat) div 4096 = n div 64 div 64"
  using div_mult2_eq[of n 64 64] by simp

lemma div_262144: "(n::nat) div 262144 = n div 64 div 64 div 64"
  using div_mult2_eq[of n 4096 64] by (simp add: div_4096)

lemma decode_utf8_bytes:
  assumes "is_scalar cp"
  shows "utf8_decode_loop 0 0 0 128 191 (utf8_bytes cp @ rest)
           = cp # utf8_decode_loop 0 0 0 128 191 rest"
proof -
  obtain x c where x: "cp = x * 64 + c" "c < 64" "cp div 64 = x" "cp mod 64 = c"
    by (rule base64_digits)
  obtain y b where y: "x = y * 64 + b" "b < 64" "x div 64 = y" "x mod 64 = b"
    by (rule base64_digits)
  obtain a z where z: "y = a * 64 + z" "z < 64" "y div 64 = a" "y mod 64 = z"
    by (rule base64_digits)
  have top: "cp < 1114112" and ns: "cp < 55296 \<or> 57343 < cp"
    using assms by (auto simp: is_scalar_def)
  consider "cp < 128" | "128 \<le> cp" "cp < 2048" | "2048 \<le> cp" "cp < 65536" | "65536 \<le> cp"
    by linarith
  then show ?thesis
  proof cases
    case 1
    then show ?thesis by (simp add: utf8_bytes_def decode_one_byte)
  next
    case 2
    have "2 \<le> x" "x < 32" using 2 x(1,2) by linarith+
    from decode_two_digits[OF this x(2), of rest] 2 x show ?thesis
      by (simp add: utf8_bytes_def)
  next
    case 3
    have "y < 16" using 3 x(1,2) y(1,2) by linarith
    moreover have "y = 0 \<longrightarrow> 32 \<le> b" using 3 x(1,2) y(1,2) by auto
    moreover have "y = 13 \<longrightarrow> b < 32" using 3 ns x(1,2) y(1,2) by auto
    ultimately have "utf8_decode_loop 0 0 0 128 191 ((224 + y) # (128 + b) # (128 + c) # rest)
           = ((y * 64 + b) * 64 + c) # utf8_decode_loop 0 0 0 128 191 rest"
      using decode_three_digits[of y b c rest] y(2) x(2) by blast
    then show ?thesis using 3 x y
      by (simp add: utf8_bytes_def div_4096)
  next
    case 4
    have "a \<le> 4" using 4 top x(1,2) y(1,2) z(1,2) by linarith
    moreover have "a = 0 \<longrightarrow> 16 \<le> z" using 4 x(1,2) y(1,2) z(1,2) by auto
    moreover have "a = 4 \<longrightarrow> z < 16" using top x(1,2) y(1,2) z(1,2) by auto
    ultimately have "utf8_decode_loop 0 0 0 128 191
             ((240 + a) # (128 + z) # (128 + b) # (128 + c) # rest)
           = (((a * 64 + z) * 64 + b) * 64 + c) # utf8_decode_loop 0 0 0 128 191 rest"
      using decode_four_digits[of a z b c rest] z(2) y(2) x(2) by blast
    then show ?thesis using 4 x y z
      by (simp add: utf8_bytes_def div_4096 div_262144)
  qed
qed

lemma decode_encoded_scalars:
  "list_all is_scalar cps \<Longrightarrow>
   utf8_decode_loop 0 0 0 128 191 (concat (map utf8_bytes cps)) = cps"
  by (induction cps) (simp_all add: decode_utf8_bytes utf8_decode_loop.simps(1))


lemma pair_scalar:
  assumes "high_surrogate c" "low_surrogate d"
  shows "is_scalar (65536 + (c - 55296) * 1024 + (d - 56320))"
    and "from_scalar (65536 + (c - 55296) * 1024 + (d - 56320)) = [c, d]"
    and "65536 + (c - 55296) * 1024 + (d - 56320) \<noteq> 65279"
proof -
  obtain h where h: "c = 55296 + h" "h < 1024"
    using assms(1) by (auto simp: high_surrogate_def intro: that[of "c - 55296"])
  obtain l where l: "d = 56320 + l" "l < 1024"
    using assms(2) by (auto simp: low_surrogate_def intro: that[of "d - 56320"])
  show "is_scalar (65536 + (c - 55296) * 1024 + (d - 56320))"
    using h l by (simp add: is_scalar_def)
  show "from_scalar (65536 + (c - 55296) * 1024 + (d - 56320)) = [c, d]"
    using h l by (simp add: from_scalar_def)
  show "65536 + (c - 55296) * 1024 + (d - 56320) \<noteq> 65279"
    by simp
qed

lemma single_scalar:
  assumes "is_code_unit c"
  shows "is_scalar (if high_surrogate c \<or> low_surrogate c then 65533 else c)"
  using assms
  by (auto simp: is_scalar_def is_code_unit_def high_surrogate_def low_surrogate_def)

lemma to_scalars_scalar:
  "list_all is_code_unit s \<Longrightarrow> list_all is_scalar (to_scalars s)"
proof (induction s rule: to_scalars.induct)
  case 1
  then show ?case by simp
next
  case (2 c)
  then show ?case using single_scalar[of c] by simp
next
  case (3 c d rest)
  then show ?case using single_scalar[of c] pair_scalar(1)[of c d] by auto
qed

lemma scalars_back:
  "list_all is_code_unit s \<Longrightarrow> well_formed_utf16 s \<Longrightarrow>
   concat (map from_scalar (to_scalars s)) = s"
proof (induction s rule: to_scalars.induct)
  case 1
  then show ?case by simp
next
  case (2 c)
  then show ?case by (simp add: from_scalar_def is_code_unit_def)
next
  case (3 c d rest)
  show ?case
  proof (cases "high_surrogate c")
    case True
    with 3 pair_scalar(2)[of c d] show ?thesis by simp
  next
    case False
    with 3 show ?thesis by (simp add: from_scalar_def is_code_unit_def)
  qed
qed

lemma first_scalar:
  assumes "s \<noteq> []" "hd s \<noteq> 65279"
  shows "to_scalars s \<noteq> [] \<and> hd (to_scalars s) \<noteq> 65279"
proof (cases s rule: to_scalars.cases)
  case 1
  with assms show ?thesis by simp
next
  case (2 c)
  with assms show ?thesis by simp
next
  case (3 c d rest)
  with assms pair_scalar(3)[of c d] show ?thesis by auto
qed

lemma utf8_bytes_are_bytes:
  assumes "is_scalar cp"
  shows "list_all is_byte (utf8_bytes cp)"
proof -
  obtain x c where x: "cp = x * 64 + c" "c < 64" "cp div 64 = x" "cp mod 64 = c"
    by (rule base64_digits)
  obtain y b where y: "x = y * 64 + b" "b < 64" "x div 64 = y" "x mod 64 = b"
    by (rule base64_digits)
  obtain a z where z: "y = a * 64 + z" "z < 64" "y div 64 = a" "y mod 64 = z"
    by (rule base64_digits)
  have top: "cp < 1114112" using assms by (simp add: is_scalar_def)
  have "cp < 2048 \<longrightarrow> x < 32" using x(1,2) by auto
  moreover have "cp < 65536 \<longrightarrow> y < 16" using x(1,2) y(1,2) by auto
  moreover have "a \<le> 4" using top x(1,2) y(1,2) z(1,2) by linarith
  ultimately show ?thesis
    using x y z by (simp add: utf8_bytes_def is_byte_def div_4096 div_262144)
qed

lemma text_encode_bytes:
  "list_all is_code_unit s \<Longrightarrow> list_all is_byte (text_encode s)"
proof -
  assume "list_all is_code_unit s"
  then have "list_all is_scalar (to_scalars s)" by (rule to_scalars_scalar)
  then have "\<forall>cp \<in> set (to_scalars s). list_all is_byte (utf8_bytes cp)"
    using utf8_bytes_are_bytes by (auto simp: list_all_iff[of is_scalar])
  then show ?thesis
    unfolding text_encode_def by (auto simp: list_all_iff)
qed

lemma text_decode_encode:
  assumes "list_all is_code_unit s"
  shows "text_decode (text_encode s) =
           concat (map from_scalar
             (case to_scalars s of [] \<Rightarrow> [] | c # rest \<Rightarrow> if c = 65279 then rest else to_scalars s))"
  using decode_encoded_scalars[OF to_scalars_scalar[OF assms]]
  by (simp add: text_decode_def text_encode_def utf8_decode_def Let_def)

lemma text_round_trip:
  assumes "list_all is_code_unit s" "well_formed_utf16 s" "s = [] \<or> hd s \<noteq> 65279"
  shows "text_decode (text_encode s) = s"
proof (cases "s = []")
  case True
  then show ?thesis by (simp add: text_decode_encode)
next
  case False
  with assms(3) first_scalar[of s] obtain c rest where "to_scalars s = c # rest" "c \<noteq> 65279"
    by (cases "to_scalars s") auto
  then show ?thesis
    using scalars_back[OF assms(1,2)] by (simp add: text_decode_encode[OF assms(1)])
qed


lemma radix_digits:
  fixes n k :: nat
  assumes "0 < k"
  obtains x c where "n = x * k + c" "c < k" "n div k = x" "n mod k = c"
proof
  show "n = (n div k) * k + n mod k" by simp
  show "n mod k < k" using assms by simp
qed simp_all

lemma sextet_group:
  assumes "is_byte a" "is_byte b" "is_byte c"
  shows "a div 4 < 64" "(a mod 4) * 16 + b div 16 < 64" "(b mod 16) * 4 + c div 64 < 64"
    "c mod 64 < 64" "(a mod 4) * 16 < 64" "(b mod 16) * 4 < 64"
    "a div 4 * 4 + ((a mod 4) * 16 + b div 16) div 16 = a"
    "((a mod 4) * 16 + b div 16) mod 16 * 16 + ((b mod 16) * 4 + c div 64) div 4 = b"
    "((b mod 16) * 4 + c div 64) mod 4 * 64 + c mod 64 = c"
    "a div 4 * 4 + ((a mod 4) * 16) div 16 = a"
    "((a mod 4) * 16 + b div 16) mod 16 * 16 + ((b mod 16) * 4) div 4 = b"
proof -
  obtain a1 a0 where a: "a = a1 * 4 + a0" "a0 < 4" "a div 4 = a1" "a mod 4 = a0"
    by (rule radix_digits[of 4 a]) simp
  obtain b1 b0 where b: "b = b1 * 16 + b0" "b0 < 16" "b div 16 = b1" "b mod 16 = b0"
    by (rule radix_digits[of 16 b]) simp
  obtain c1 c0 where c: "c = c1 * 64 + c0" "c0 < 64" "c div 64 = c1" "c mod 64 = c0"
    by (rule radix_digits[of 64 c]) simp
  have a1: "a1 < 64" using assms(1) a(1) by (simp add: is_byte_def)
  have b1: "b1 < 16" using assms(2) b(1) by (simp add: is_byte_def)
  have c1: "c1 < 4" using assms(3) c(1) by (simp add: is_byte_def)
  show "a div 4 < 64" "(a mod 4) * 16 + b div 16 < 64" "(b mod 16) * 4 + c div 64 < 64"
    "c mod 64 < 64" "(a mod 4) * 16 < 64" "(b mod 16) * 4 < 64"
    using a b c a1 b1 c1 by simp_all
  show "a div 4 * 4 + ((a mod 4) * 16 + b div 16) div 16 = a"
    "((a mod 4) * 16 + b div 16) mod 16 * 16 + ((b mod 16) * 4 + c div 64) div 4 = b"
    "((b mod 16) * 4 + c div 64) mod 4 * 64 + c mod 64 = c"
    "a div 4 * 4 + ((a mod 4) * 16) div 16 = a"
    "((a mod 4) * 16 + b div 16) mod 16 * 16 + ((b mod 16) * 4) div 4 = b"
    unfolding a(3,4) b(3,4) c(3,4) using a(1,2) b(1,2) c(1,2) b1 c1 by simp_all
qed

lemma sextets_small:
  "list_all is_byte bs \<Longrightarrow> list_all (\<lambda>n. n < 64) (sextets bs)"
proof (induction bs rule: sextets.induct)
  case 1
  then show ?case by simp
next
  case (2 a)
  then show ?case using sextet_group[of a a a] by simp
next
  case (3 a b)
  then show ?case using sextet_group[of a b b] by simp
next
  case (4 a b c rest)
  then show ?case using sextet_group[of a b c] by simp
qed

lemma unsextets_sextets:
  "list_all is_byte bs \<Longrightarrow> unsextets (sextets bs) = bs"
proof (induction bs rule: sextets.induct)
  case 1
  then show ?case by simp
next
  case (2 a)
  then show ?case using sextet_group[of a a a] by simp
next
  case (3 a b)
  then show ?case using sextet_group[of a b b] by simp
next
  case (4 a b c rest)
  then show ?case using sextet_group[of a b c] by simp
qed

lemma sextets_length:
  "(length (sextets bs) + (3 - length bs mod 3) mod 3) mod 4 = 0 \<and> length (sextets bs) mod 4 \<noteq> 1"
proof (induction bs rule: sextets.induct)
  case (4 a b c rest)
  have "length (a # b # c # rest) mod 3 = length rest mod 3"
    using mod_add_self2[of "length rest" 3] by simp
  moreover have "length (sextets (a # b # c # rest)) = length (sextets rest) + 4"
    by simp
  moreover have "\<And>n p :: nat. (n + 4 + p) mod 4 = (n + p) mod 4"
  proof -
    fix n p :: nat
    have "n + 4 + p = (n + p) + 4" by simp
    then show "(n + 4 + p) mod 4 = (n + p) mod 4" by (simp only: mod_add_self2)
  qed
  moreover have "\<And>n :: nat. (n + 4) mod 4 = n mod 4" by simp
  ultimately show ?case using 4 by (simp del: sextets.simps)
qed simp_all


lemma alphabet_length: "length b64_alphabet = 64"
  by (simp add: b64_alphabet_def)

lemma alphabet_distinct: "distinct b64_alphabet"
  by (simp add: b64_alphabet_def)

lemma alphabet_plain:
  "c \<in> set b64_alphabet \<Longrightarrow> c \<noteq> CHR ''='' \<and> \<not> ascii_whitespace c"
  by (auto simp: b64_alphabet_def ascii_whitespace_def)

lemma index_of_nth:
  "distinct xs \<Longrightarrow> n < length xs \<Longrightarrow> index_of xs (xs ! n) = n"
proof (induction xs arbitrary: n)
  case Nil
  then show ?case by simp
next
  case (Cons y ys)
  then show ?case by (cases n) auto
qed

lemma alphabet_chars:
  assumes "list_all (\<lambda>n. n < 64) ns"
  shows "list_all (\<lambda>c. c \<in> set b64_alphabet) (map (\<lambda>n. b64_alphabet ! n) ns)"
    and "map (index_of b64_alphabet) (map (\<lambda>n. b64_alphabet ! n) ns) = ns"
  using assms
  by (induction ns) (simp_all add: alphabet_length alphabet_distinct index_of_nth)

lemma strip_padding_encoded:
  assumes "p \<le> 2" "(length body + p) mod 4 = 0" "list_all (\<lambda>c. c \<noteq> CHR ''='') body"
  shows "strip_padding (body @ replicate p CHR ''='') = body"
proof -
  have l: "body \<noteq> [] \<Longrightarrow> last body \<noteq> CHR ''=''"
    using assms(3) by (simp add: list_all_iff)
  consider "p = 0" | "p = 1" | "p = 2" using assms(1) by linarith
  then show ?thesis
  proof cases
    case 1
    with l show ?thesis by (auto simp: strip_padding_def)
  next
    case 2
    with l assms(2) show ?thesis by (auto simp: strip_padding_def)
  next
    case 3
    then have r: "replicate p CHR ''='' = [CHR ''='', CHR ''='']"
      by (simp add: numeral_2_eq_2)
    have b: "butlast (body @ [CHR ''='', CHR ''='']) = body @ [CHR ''='']"
      by (simp add: butlast_append)
    show ?thesis using assms(2) 3 unfolding r strip_padding_def b by simp
  qed
qed

lemma atob_btoa:
  assumes "list_all is_byte bs"
  shows "\<exists>t. btoa bs = Some t \<and> atob t = Some bs"
proof -
  let ?body = "map (\<lambda>n. b64_alphabet ! n) (sextets bs)"
  let ?p = "(3 - length bs mod 3) mod 3"
  let ?t = "?body @ replicate ?p CHR ''=''"
  have enc: "btoa bs = Some ?t" using assms by (simp add: btoa_def)
  have small: "list_all (\<lambda>n. n < 64) (sextets bs)" using assms by (rule sextets_small)
  have chars: "list_all (\<lambda>c. c \<in> set b64_alphabet) ?body"
    and idx: "map (index_of b64_alphabet) ?body = sextets bs"
    using alphabet_chars[OF small] by simp_all
  have plain: "list_all (\<lambda>c. c \<noteq> CHR ''='') ?body" "list_all (\<lambda>c. \<not> ascii_whitespace c) ?body"
    using chars alphabet_plain by (auto simp: list_all_iff)
  have ws: "filter (\<lambda>c. \<not> ascii_whitespace c) ?t = ?t"
    using plain(2) by (auto simp: list_all_iff ascii_whitespace_def)
  have p: "?p \<le> 2" by simp
  have len: "(length ?body + ?p) mod 4 = 0" "length ?body mod 4 \<noteq> 1"
    using sextets_length[of bs] by simp_all
  have strip: "strip_padding ?t = ?body"
    by (rule strip_padding_encoded[OF p len(1) plain(1)])
  have "atob ?t = Some bs"
    unfolding atob_def ws strip Let_def
    using len(2) chars idx unsextets_sextets[OF assms] by simp
  with enc show ?thesis by blast
qed

lemma spread_of_bytes:
  assumes "list_all is_byte bs" "length bs \<le> limit"
  shows "fromCharCode_spread limit bs = Some bs"
proof -
  have "map (\<lambda>n. n mod 65536) bs = bs"
  proof (rule map_idI)
    fix x assume "x \<in> set bs"
    with assms(1) have "x < 256" by (simp add: list_all_iff is_byte_def)
    then have "x < 65536" by simp
    then show "x mod 65536 = x" by (rule mod_less)
  qed
  with assms(2) show ?thesis by (simp add: fromCharCode_spread_def)
qed

lemma encrypt_then_decrypt_text:
  assumes "aead_round_trip host key rnd (text_encode plaintext) c"
    and "length c \<le> max_arguments host"
    and "list_all is_byte rnd"
    and "length rnd \<le> max_arguments host"
  shows "encrypt_then_decrypt host rnd now plaintext key
           = Inr (text_decode (text_encode plaintext))"
proof -
  have c: "aes_gcm_encrypt host key rnd (text_encode plaintext) = Some c"
    "list_all is_byte c" "aes_gcm_decrypt host key rnd c = Some (text_encode plaintext)"
    using assms(1) by (simp_all add: aead_round_trip_def)
  have sc: "fromCharCode_spread (max_arguments host) c = Some c"
    by (rule spread_of_bytes[OF c(2) assms(2)])
  have si: "fromCharCode_spread (max_arguments host) rnd = Some rnd"
    by (rule spread_of_bytes[OF assms(3,4)])
  obtain tc where tc: "btoa c = Some tc" "atob tc = Some c"
    using atob_btoa[OF c(2)] by blast
  obtain ti where ti: "btoa rnd = Some ti" "atob ti = Some rnd"
    using atob_btoa[OF assms(3)] by blast
  have enc: "encryptMessage host rnd now plaintext key
               = Inr \<lparr>ciphertext = tc, iv = ti, env_timestamp = now\<rparr>"
    using c(1) sc si tc(1) ti(1) by (simp add: encryptMessage_def)
  have dec: "decryptMessage host \<lparr>ciphertext = tc, iv = ti, env_timestamp = now\<rparr> key
               = Inr (text_decode (text_encode plaintext))"
    using c(3) tc(2) ti(2) by (simp add: decryptMessage_def)
  show ?thesis
    unfolding encrypt_then_decrypt_def enc using dec by simp
qed

lemma encrypt_beyond_argument_limit:
  assumes "aes_gcm_encrypt host key rnd (text_encode plaintext) = Some c"
    and "max_arguments host < length c"
  shows "encryptMessage host rnd now plaintext key = Inl FailedToEncrypt"
    and "encrypt_then_decrypt host rnd now plaintext key = Inl FailedToEncrypt"
proof -
  have "fromCharCode_spread (max_arguments host) c = None"
    using assms(2) by (simp add: fromCharCode_spread_def)
  with assms(1) show e: "encryptMessage host rnd now plaintext key = Inl FailedToEncrypt"
    by (simp add: encryptMessage_def)
  show "encrypt_then_decrypt host rnd now plaintext key = Inl FailedToEncrypt"
    unfolding encrypt_then_decrypt_def e by simp
qed

text \<open>
  Claim C1, as amended. Let the host's AES-GCM encrypt the UTF-8 bytes of the plaintext
  under the key and the IV to bytes \<open>c\<close> that it decrypts back, and let neither \<open>c\<close> nor
  the IV have more elements than the engine accepts as arguments in one call. When the
  plaintext is a well-formed UTF-16 string (no unpaired surrogate) that does not begin
  with U+FEFF, \<open>encryptMessage\<close> succeeds and \<open>decryptMessage\<close> of its envelope with the
  same key returns the plaintext.
\<close>

theorem C1_round_trip_of_well_formed_text:
  assumes "aead_round_trip host key rnd (text_encode plaintext) c"
    and "length c \<le> max_arguments host"
    and "list_all is_byte rnd"
    and "length rnd \<le> max_arguments host"
    and "list_all is_code_unit plaintext"
    and "well_formed_utf16 plaintext"
    and "plaintext = [] \<or> hd plaintext \<noteq> 0xFEFF"
  shows "encrypt_then_decrypt host rnd now plaintext key = Inr plaintext"
  using encrypt_then_decrypt_text[OF assms(1,2,3,4)] text_round_trip[OF assms(5,6)] assms(7)
  by simp

lemma demo_round_trip:
  "list_all is_byte data \<Longrightarrow>
   aead_round_trip demo_platform k rnd data (rev data @ [k mod 256])"
  by (simp add: aead_round_trip_def demo_platform_def is_byte_def list_all_iff)

lemma demo_iv_bytes: "list_all is_byte demo_iv" "length demo_iv \<le> max_arguments demo_platform"
  by (simp_all add: demo_iv_def is_byte_def demo_platform_def)

lemma text_encode_ascii:
  "list_all (\<lambda>c. c < 128) s \<Longrightarrow> text_encode s = s"
proof -
  assume a: "list_all (\<lambda>c. c < 128) s"
  then have "to_scalars s = s"
    by (induction s rule: to_scalars.induct)
       (simp_all add: high_surrogate_def low_surrogate_def)
  moreover have "concat (map utf8_bytes s) = s"
    using a by (induction s) (simp_all add: utf8_bytes_def)
  ultimately show ?thesis by (simp add: text_encode_def)
qed

text \<open>
  Claim C1 as stated fails: a plaintext that begins with U+FEFF comes back without it,
  an unpaired surrogate comes back as U+FFFD, and a plaintext whose ciphertext has more
  bytes than the engine accepts as arguments is not encrypted at all.
\<close>

theorem C1_plaintexts_not_returned:
  "encrypt_then_decrypt demo_platform demo_iv 1000 [0xFEFF, 0x68, 0x69] 7 = Inr [0x68, 0x69]
   \<and> encrypt_then_decrypt demo_platform demo_iv 1000 [0xFEFF, 0x68, 0x69] 7
       \<noteq> Inr [0xFEFF, 0x68, 0x69]
   \<and> encrypt_then_decrypt demo_platform demo_iv 1000 [0x68, 0xD83D] 7 = Inr [0x68, 0xFFFD]
   \<and> encrypt_then_decrypt demo_platform demo_iv 1000 [0x68, 0xD83D] 7 \<noteq> Inr [0x68, 0xD83D]
   \<and> encrypt_then_decrypt demo_platform demo_iv 1000 (replicate 70000 0x61) 7
       = Inl FailedToEncrypt"
proof -
  have u1: "list_all is_code_unit [0xFEFF, 0x68, 0x69]" and u2: "list_all is_code_unit [0x68, 0xD83D]"
    by (simp_all add: is_code_unit_def)
  have s1: "to_scalars [0xFEFF, 0x68, 0x69] = [0xFEFF, 0x68, 0x69]"
    and s2: "to_scalars [0x68, 0xD83D] = [0x68, 0xFFFD]"
    by (simp_all add: high_surrogate_def low_surrogate_def)
  have d1: "text_decode (text_encode [0xFEFF, 0x68, 0x69]) = [0x68, 0x69]"
    unfolding text_decode_encode[OF u1] s1 by (simp add: from_scalar_def)
  have d2: "text_decode (text_encode [0x68, 0xD83D]) = [0x68, 0xFFFD]"
    unfolding text_decode_encode[OF u2] s2 by (simp add: from_scalar_def)
  have e1: "text_encode [0xFEFF, 0x68, 0x69] = [0xEF, 0xBB, 0xBF, 0x68, 0x69]"
    and e2: "text_encode [0x68, 0xD83D] = [0x68, 0xEF, 0xBF, 0xBD]"
    unfolding text_encode_def s1 s2 by (simp_all add: utf8_bytes_def)
  have r1: "encrypt_then_decrypt demo_platform demo_iv 1000 [0xFEFF, 0x68, 0x69] 7
              = Inr [0x68, 0x69]"
    using encrypt_then_decrypt_text[OF demo_round_trip[of "text_encode [0xFEFF, 0x68, 0x69]" 7 demo_iv]
        _ demo_iv_bytes, of 1000] text_encode_bytes[OF u1]
    unfolding d1 by (simp add: e1 demo_platform_def)
  have r2: "encrypt_then_decrypt demo_platform demo_iv 1000 [0x68, 0xD83D] 7
              = Inr [0x68, 0xFFFD]"
    using encrypt_then_decrypt_text[OF demo_round_trip[of "text_encode [0x68, 0xD83D]" 7 demo_iv]
        _ demo_iv_bytes, of 1000] text_encode_bytes[OF u2]
    unfolding d2 by (simp add: e2 demo_platform_def)
  have long: "text_encode (replicate 70000 0x61) = replicate 70000 0x61"
    by (rule text_encode_ascii) (simp add: list_all_iff)
  have enc: "aes_gcm_encrypt demo_platform 7 demo_iv (text_encode (replicate 70000 0x61))
               = Some (rev (replicate 70000 0x61) @ [7])"
    unfolding long by (simp add: demo_platform_def)
  have r3: "encrypt_then_decrypt demo_platform demo_iv 1000 (replicate 70000 0x61) 7
              = Inl FailedToEncrypt"
    by (rule encrypt_beyond_argument_limit(2)[OF enc]) (simp add: demo_platform_def)
  from r1 r2 r3 show ?thesis by simp
qed

theorem C1_round_trip_of_well_formed_text_witness:
  "encrypt_then_decrypt demo_platform demo_iv 1000 [0x4F, 0x6C, 0xE1, 0x20, 0xD83D, 0xDE00] 7
     = Inr [0x4F, 0x6C, 0xE1, 0x20, 0xD83D, 0xDE00]"
proof -
  let ?p = "[0x4F, 0x6C, 0xE1, 0x20, 0xD83D, 0xDE00] :: nat list"
  have u: "list_all is_code_unit ?p" by (simp add: is_code_unit_def)
  have w: "well_formed_utf16 ?p" by (simp add: high_surrogate_def low_surrogate_def)
  have h: "?p = [] \<or> hd ?p \<noteq> 0xFEFF" by simp
  have s: "to_scalars ?p = [0x4F, 0x6C, 0xE1, 0x20, 0x1F600]"
    by (simp add: high_surrogate_def low_surrogate_def)
  have e: "text_encode ?p = [0x4F, 0x6C, 0xC3, 0xA1, 0x20, 0xF0, 0x9F, 0x98, 0x80]"
    unfolding text_encode_def s by (simp add: utf8_bytes_def)
  have a: "aead_round_trip demo_platform 7 demo_iv (text_encode ?p) (rev (text_encode ?p) @ [7 mod 256])"
    by (rule demo_round_trip[OF text_encode_bytes[OF u]])
  have l: "length (rev (text_encode ?p) @ [7 mod 256]) \<le> max_arguments demo_platform"
    unfolding e by (simp add: demo_platform_def)
  show ?thesis
    by (rule C1_round_trip_of_well_formed_text[OF a l demo_iv_bytes u w h])
qed

end
